theory Spec2Isabelle
  imports Complex_Main "HOL-Library.Word" "HOL-Library.Sublist"
begin

unbundle bit_operations_syntax

section \<open>JavaScript strings\<close>

text \<open>
  A JavaScript string is a sequence of UTF-16 code units.  A code unit is modelled as a
  natural number (below \<open>65536\<close> in every string the program builds); \<open>lit\<close> turns
  an ASCII literal of the source into that representation.
\<close>

type_synonym str = "nat list"

definition lit :: "string \<Rightarrow> str" where
  "lit s = map of_char s"

definition startsWith :: "str \<Rightarrow> str \<Rightarrow> bool" where
  \<comment> \<open>\<open>s.startsWith(p)\<close>\<close>
  "startsWith p s = (take (length p) s = p)"

definition endsWith :: "str \<Rightarrow> str \<Rightarrow> bool" where
  \<comment> \<open>\<open>s.endsWith(p)\<close>\<close>
  "endsWith p s = (length p \<le> length s \<and> drop (length s - length p) s = p)"

definition is_space :: "nat \<Rightarrow> bool" where
  \<comment> \<open>the code units \<open>String.prototype.trim\<close> removes: WhiteSpace and LineTerminator\<close>
  "is_space c = (c = 9 \<or> c = 10 \<or> c = 11 \<or> c = 12 \<or> c = 13 \<or> c = 32 \<or> c = 160
     \<or> c = 5760 \<or> (8192 \<le> c \<and> c \<le> 8202) \<or> c = 8232 \<or> c = 8233 \<or> c = 8239
     \<or> c = 8287 \<or> c = 12288 \<or> c = 65279)"

definition trim :: "str \<Rightarrow> str" where
  \<comment> \<open>\<open>s.trim()\<close>\<close>
  "trim s = rev (dropWhile is_space (rev (dropWhile is_space s)))"

fun indexOf :: "nat \<Rightarrow> str \<Rightarrow> nat option" where
  \<comment> \<open>\<open>s.indexOf(c)\<close> for a one-unit pattern; \<open>None\<close> stands for \<open>-1\<close>\<close>
  "indexOf c [] = None"
| "indexOf c (x # xs) = (if x = c then Some 0 else map_option Suc (indexOf c xs))"

fun split :: "nat \<Rightarrow> str \<Rightarrow> str list" where
  \<comment> \<open>\<open>s.split(c)\<close> for a one-unit separator: \<open>n\<close> separators give \<open>n + 1\<close> pieces\<close>
  "split c [] = [[]]"
| "split c (x # xs) =
     (if x = c then [] # split c xs
      else (case split c xs of [] \<Rightarrow> [[x]] | p # ps \<Rightarrow> (x # p) # ps))"

function toString :: "nat \<Rightarrow> str" where
  \<comment> \<open>\<open>n.toString()\<close> for the integer \<open>Date.now()\<close> returns: its decimal digits\<close>
  "toString n = (if n < 10 then [48 + n] else toString (n div 10) @ [48 + n mod 10])"
  by pat_completeness auto
termination
  by (relation "measure id") auto

declare toString.simps [simp del]

section \<open>JSON values and \<open>JSON.parse\<close>\<close>

text \<open>
  The value \<open>JSON.parse\<close> returns.  A number carries the mathematical value of its
  literal; an object keeps its members in source order, duplicates included.
\<close>

datatype json =
    JNull
  | JBool bool
  | JNum rat
  | JStr str
  | JArr "json list"
  | JObj "(str \<times> json) list"

datatype token =
    LBrace | RBrace | LBracket | RBracket | Colon | Comma
  | TStr str | TNum rat | TTrue | TFalse | TNull

definition is_digit :: "nat \<Rightarrow> bool" where
  "is_digit c = (48 \<le> c \<and> c \<le> 57)"

definition is_json_ws :: "nat \<Rightarrow> bool" where
  \<comment> \<open>JSON white space: tab, line feed, carriage return, space\<close>
  "is_json_ws c = (c = 9 \<or> c = 10 \<or> c = 13 \<or> c = 32)"

definition hex_val :: "nat \<Rightarrow> nat option" where
  "hex_val c =
     (if 48 \<le> c \<and> c \<le> 57 then Some (c - 48)
      else if 65 \<le> c \<and> c \<le> 70 then Some (c - 55)
      else if 97 \<le> c \<and> c \<le> 102 then Some (c - 87)
      else None)"

fun hex4 :: "str \<Rightarrow> nat option" where
  \<comment> \<open>the four hexadecimal digits after \<open>\u\<close>\<close>
  "hex4 (a # b # c # d # _) =
     (case (hex_val a, hex_val b, hex_val c, hex_val d) of
        (Some h3, Some h2, Some h1, Some h0) \<Rightarrow> Some (((h3 * 16 + h2) * 16 + h1) * 16 + h0)
      | _ \<Rightarrow> None)"
| "hex4 _ = None"

definition escape :: "nat \<Rightarrow> nat option" where
  \<comment> \<open>the single-character escapes: \<open>\" \\ \/ \b \f \n \r \t\<close>\<close>
  "escape e =
     (if e = 34 then Some 34 else if e = 92 then Some 92 else if e = 47 then Some 47
      else if e = 98 then Some 8 else if e = 102 then Some 12 else if e = 110 then Some 10
      else if e = 114 then Some 13 else if e = 116 then Some 9 else None)"

fun lex_string :: "str \<Rightarrow> str \<Rightarrow> (str \<times> str) option" where
  \<comment> \<open>the body of a string literal after its opening quote: the decoded string (collected
      in reverse) and the input after the closing quote\<close>
  "lex_string acc [] = None"
| "lex_string acc (c # cs) =
     (if c = 34 then Some (rev acc, cs)
      else if c = 92 then
        (case cs of
           [] \<Rightarrow> None
         | e # cs' \<Rightarrow>
             if e = 117 then
               (case hex4 cs' of None \<Rightarrow> None | Some u \<Rightarrow> lex_string (u # acc) (drop 4 cs'))
             else (case escape e of None \<Rightarrow> None | Some x \<Rightarrow> lex_string (x # acc) cs'))
      else if c < 32 then None
      else lex_string (c # acc) cs)"

definition nat_of_digits :: "str \<Rightarrow> nat" where
  "nat_of_digits ds = foldl (\<lambda>n d. 10 * n + (d - 48)) 0 ds"

definition number_value :: "str \<Rightarrow> rat option" where
  \<comment> \<open>a whole JSON number literal:
      \<open>-? (0 | [1-9][0-9]*) (. [0-9]+)? ([eE] [+-]? [0-9]+)?\<close>\<close>
  "number_value s =
     (let neg = (s \<noteq> [] \<and> hd s = 45);
          s1 = (if neg then tl s else s);
          ip = takeWhile is_digit s1;
          s2 = dropWhile is_digit s1;
          has_frac = (s2 \<noteq> [] \<and> hd s2 = 46);
          fp = (if has_frac then takeWhile is_digit (tl s2) else []);
          s3 = (if has_frac then dropWhile is_digit (tl s2) else s2);
          has_exp = (s3 \<noteq> [] \<and> (hd s3 = 101 \<or> hd s3 = 69));
          s4 = (if has_exp then tl s3 else s3);
          eneg = (has_exp \<and> s4 \<noteq> [] \<and> hd s4 = 45);
          s5 = (if has_exp \<and> s4 \<noteq> [] \<and> (hd s4 = 45 \<or> hd s4 = 43) then tl s4 else s4);
          ep = (if has_exp then takeWhile is_digit s5 else []);
          s6 = (if has_exp then dropWhile is_digit s5 else s5);
          mant = of_nat (nat_of_digits ip) + of_nat (nat_of_digits fp) / 10 ^ length fp;
          mag = (if eneg then mant / 10 ^ nat_of_digits ep else mant * 10 ^ nat_of_digits ep)
      in if ip = [] \<or> (length ip > 1 \<and> hd ip = 48) then None
         else if has_frac \<and> fp = [] then None
         else if has_exp \<and> ep = [] then None
         else if s6 \<noteq> [] then None
         else Some (if neg then - mag else mag))"

definition is_number_char :: "nat \<Rightarrow> bool" where
  "is_number_char c = (is_digit c \<or> c = 43 \<or> c = 45 \<or> c = 46 \<or> c = 69 \<or> c = 101)"

function tokenize :: "str \<Rightarrow> token list option" where
  "tokenize [] = Some []"
| "tokenize (c # cs) =
     (if is_json_ws c then tokenize cs
      else if c = 123 then map_option (Cons LBrace) (tokenize cs)
      else if c = 125 then map_option (Cons RBrace) (tokenize cs)
      else if c = 91 then map_option (Cons LBracket) (tokenize cs)
      else if c = 93 then map_option (Cons RBracket) (tokenize cs)
      else if c = 58 then map_option (Cons Colon) (tokenize cs)
      else if c = 44 then map_option (Cons Comma) (tokenize cs)
      else if c = 34 then
        (case lex_string [] cs of
           None \<Rightarrow> None
         | Some (s, rest) \<Rightarrow> map_option (Cons (TStr s)) (tokenize rest))
      else if c = 45 \<or> is_digit c then
        (case number_value (c # takeWhile is_number_char cs) of
           None \<Rightarrow> None
         | Some q \<Rightarrow> map_option (Cons (TNum q)) (tokenize (dropWhile is_number_char cs)))
      else if c = 116 \<and> startsWith (lit ''rue'') cs then map_option (Cons TTrue) (tokenize (drop 3 cs))
      else if c = 102 \<and> startsWith (lit ''alse'') cs then map_option (Cons TFalse) (tokenize (drop 4 cs))
      else if c = 110 \<and> startsWith (lit ''ull'') cs then map_option (Cons TNull) (tokenize (drop 3 cs))
      else None)"
  by pat_completeness auto
termination
proof -
  have shorter: "length rest < Suc (length cs)"
    if "lex_string acc cs = Some (s, rest)" for acc cs s rest
    using that
  proof (induction acc cs rule: lex_string.induct)
    case (1 acc)
    then show ?case by simp
  next
    case (2 acc c cs)
    show ?case
    proof (cases "c = 34")
      case True
      with 2 show ?thesis by simp
    next
      case no_quote: False
      show ?thesis
      proof (cases "c = 92")
        case False
        with no_quote 2 show ?thesis by (simp split: if_splits)
      next
        case True
        show ?thesis
        proof (cases cs)
          case Nil
          with True no_quote 2 show ?thesis by simp
        next
          case (Cons e cs')
          show ?thesis
          proof (cases "e = 117")
            case unicode: True
            then obtain u where u: "hex4 cs' = Some u"
              and r: "lex_string (u # acc) (drop 4 cs') = Some (s, rest)"
              using 2(4) True Cons by (auto split: option.splits)
            from 2(1)[OF no_quote True Cons unicode u r] show ?thesis using Cons by simp
          next
            case False
            then obtain x where x: "escape e = Some x"
              and r: "lex_string (x # acc) cs' = Some (s, rest)"
              using 2(4) True Cons by (auto split: option.splits)
            from 2(2)[OF no_quote True Cons False x r] show ?thesis using Cons by simp
          qed
        qed
      qed
    qed
  qed
  show ?thesis
    by (relation "measure length")
       (auto dest: shorter simp: less_Suc_eq_le length_dropWhile_le)
qed

text \<open>
  The token list is read by a push-down automaton: the stack holds the arrays and objects
  still open, innermost first.
\<close>

datatype frame =
    FArr "json list"
  | FObj "(str \<times> json) list" "str option"

datatype expect =
    NeedValue | NeedValueOrClose | NeedKeyOrClose | NeedKey | NeedColon | AfterValue
  | Finished json

fun put_value :: "json \<Rightarrow> frame list \<Rightarrow> (frame list \<times> expect) option" where
  \<comment> \<open>a complete value lands in the innermost open container, or is the result\<close>
  "put_value v [] = Some ([], Finished v)"
| "put_value v (FArr xs # st) = Some (FArr (v # xs) # st, AfterValue)"
| "put_value v (FObj kvs (Some k) # st) = Some (FObj ((k, v) # kvs) None # st, AfterValue)"
| "put_value v (FObj kvs None # st) = None"

fun scalar :: "token \<Rightarrow> json option" where
  "scalar (TStr s) = Some (JStr s)"
| "scalar (TNum q) = Some (JNum q)"
| "scalar TTrue = Some (JBool True)"
| "scalar TFalse = Some (JBool False)"
| "scalar TNull = Some JNull"
| "scalar _ = None"

fun advance :: "frame list \<Rightarrow> expect \<Rightarrow> token \<Rightarrow> (frame list \<times> expect) option" where
  "advance st (Finished v) t = None"
| "advance st NeedColon t = (if t = Colon then Some (st, NeedValue) else None)"
| "advance st AfterValue t =
     (case st of
        FArr xs # st' \<Rightarrow>
          if t = Comma then Some (st, NeedValue)
          else if t = RBracket then put_value (JArr (rev xs)) st'
          else None
      | FObj kvs None # st' \<Rightarrow>
          if t = Comma then Some (st, NeedKey)
          else if t = RBrace then put_value (JObj (rev kvs)) st'
          else None
      | _ \<Rightarrow> None)"
| "advance st NeedKey t =
     (case (t, st) of
        (TStr k, FObj kvs None # st') \<Rightarrow> Some (FObj kvs (Some k) # st', NeedColon)
      | _ \<Rightarrow> None)"
| "advance st NeedKeyOrClose t =
     (case (t, st) of
        (TStr k, FObj kvs None # st') \<Rightarrow> Some (FObj kvs (Some k) # st', NeedColon)
      | (RBrace, FObj kvs None # st') \<Rightarrow> put_value (JObj (rev kvs)) st'
      | _ \<Rightarrow> None)"
| "advance st e t =
     (if t = LBracket then Some (FArr [] # st, NeedValueOrClose)
      else if t = LBrace then Some (FObj [] None # st, NeedKeyOrClose)
      else if t = RBracket \<and> e = NeedValueOrClose then
        (case st of FArr xs # st' \<Rightarrow> put_value (JArr (rev xs)) st' | _ \<Rightarrow> None)
      else (case scalar t of None \<Rightarrow> None | Some v \<Rightarrow> put_value v st))"

fun run_tokens :: "frame list \<Rightarrow> expect \<Rightarrow> token list \<Rightarrow> json option" where
  "run_tokens st e [] = (case e of Finished v \<Rightarrow> Some v | _ \<Rightarrow> None)"
| "run_tokens st e (t # ts) =
     (case advance st e t of None \<Rightarrow> None | Some (st', e') \<Rightarrow> run_tokens st' e' ts)"

definition JSON_parse :: "str \<Rightarrow> json option" where
  \<comment> \<open>\<open>JSON.parse(s)\<close>; \<open>None\<close> is the SyntaxError it throws\<close>
  "JSON_parse s = (case tokenize s of None \<Rightarrow> None | Some ts \<Rightarrow> run_tokens [] NeedValue ts)"

section \<open>Reading the parsed value\<close>

text \<open>
  JavaScript's \<open>undefined\<close> is \<open>None\<close>.  The program reads the members
  \<open>choices\<close>, \<open>delta\<close> and \<open>content\<close> and the index \<open>0\<close>, none of which is inherited
  from a prototype, so a member is an own property: a later duplicate key of an object
  overwrites an earlier one, and only arrays and non-empty strings have an index \<open>0\<close>
  besides an object with the key \<open>"0"\<close>.
\<close>

datatype js_exception = TypeError

fun get_member :: "str \<Rightarrow> json \<Rightarrow> json option" where
  \<comment> \<open>\<open>v.name\<close> for a value \<open>v\<close> other than \<open>null\<close>\<close>
  "get_member name (JObj kvs) = map_of (rev kvs) name"
| "get_member name v = None"

fun index0 :: "json \<Rightarrow> json option" where
  \<comment> \<open>\<open>v[0]\<close> for a value \<open>v\<close> other than \<open>null\<close>\<close>
  "index0 (JObj kvs) = map_of (rev kvs) (lit ''0'')"
| "index0 (JArr xs) = (case xs of [] \<Rightarrow> None | x # _ \<Rightarrow> Some x)"
| "index0 (JStr s) = (case s of [] \<Rightarrow> None | c # _ \<Rightarrow> Some (JStr [c]))"
| "index0 v = None"

definition optional :: "(json \<Rightarrow> json option) \<Rightarrow> json option \<Rightarrow> json option" where
  \<comment> \<open>optional chaining \<open>v?.access\<close>: \<open>undefined\<close> when \<open>v\<close> is \<open>undefined\<close> or \<open>null\<close>\<close>
  "optional access v =
     (case v of None \<Rightarrow> None | Some JNull \<Rightarrow> None | Some x \<Rightarrow> access x)"

definition delta_content :: "json \<Rightarrow> js_exception + json option" where
  \<comment> \<open>\<open>parsed.choices?.[0]?.delta?.content\<close>; reading \<open>choices\<close> of \<open>null\<close> throws\<close>
  "delta_content parsed =
     (if parsed = JNull then Inl TypeError
      else Inr (optional (get_member (lit ''content''))
                 (optional (get_member (lit ''delta''))
                   (optional index0 (get_member (lit ''choices'') parsed)))))"

fun truthy :: "json option \<Rightarrow> bool" where
  \<comment> \<open>the test of \<open>if (content)\<close>; a number literal is read as a double, which is zero
      exactly when the magnitude of the literal is at most \<open>1 / 2 ^ 1075\<close>\<close>
  "truthy None = False"
| "truthy (Some JNull) = False"
| "truthy (Some (JBool b)) = b"
| "truthy (Some (JNum q)) = (\<bar>q\<bar> > 1 / 2 ^ 1075)"
| "truthy (Some (JStr s)) = (s \<noteq> [])"
| "truthy (Some (JArr xs)) = True"
| "truthy (Some (JObj kvs)) = True"

section \<open>\<open>TextDecoder\<close>: streaming UTF-8\<close>

text \<open>
  \<open>new TextDecoder()\<close> decodes UTF-8, replaces malformed input by U+FFFD and drops a
  byte order mark at the very start.  With \<open>{ stream: true }\<close> the bytes of an
  unfinished character stay in the decoder between calls.
\<close>

type_synonym byte = "8 word"

record utf8 =
  code_point :: nat
  bytes_seen :: nat
  bytes_needed :: nat
  lower_boundary :: nat
  upper_boundary :: nat
  bom_seen :: bool

definition new_TextDecoder :: utf8 where
  "new_TextDecoder =
     \<lparr>code_point = 0, bytes_seen = 0, bytes_needed = 0,
      lower_boundary = 128, upper_boundary = 191, bom_seen = False\<rparr>"

definition code_units :: "nat \<Rightarrow> str" where
  \<comment> \<open>a scalar value as UTF-16: one unit, or a surrogate pair\<close>
  "code_units cp =
     (if cp < 65536 then [cp]
      else [55296 + drop_bit 10 (cp - 65536), 56320 + ((cp - 65536) AND 1023)])"

definition emit :: "utf8 \<Rightarrow> nat \<Rightarrow> str \<times> utf8" where
  \<comment> \<open>output of one scalar value; the first one is dropped when it is U+FEFF\<close>
  "emit d cp =
     (if \<not> bom_seen d \<and> cp = 65279 then ([], d\<lparr>bom_seen := True\<rparr>)
      else (code_units cp, d\<lparr>bom_seen := True\<rparr>))"

definition reset :: "utf8 \<Rightarrow> utf8" where
  "reset d = d\<lparr>code_point := 0, bytes_seen := 0, bytes_needed := 0,
               lower_boundary := 128, upper_boundary := 191\<rparr>"

definition lead_byte :: "utf8 \<Rightarrow> byte \<Rightarrow> str \<times> utf8" where
  \<comment> \<open>a byte met while no character is unfinished\<close>
  "lead_byte d b =
     (let n = unat b in
      if n \<le> 127 then emit d n
      else if 194 \<le> n \<and> n \<le> 223 then
        ([], d\<lparr>bytes_needed := 1, code_point := unat (b AND 31)\<rparr>)
      else if 224 \<le> n \<and> n \<le> 239 then
        ([], d\<lparr>lower_boundary := (if n = 224 then 160 else lower_boundary d),
               upper_boundary := (if n = 237 then 159 else upper_boundary d),
               bytes_needed := 2, code_point := unat (b AND 15)\<rparr>)
      else if 240 \<le> n \<and> n \<le> 244 then
        ([], d\<lparr>lower_boundary := (if n = 240 then 144 else lower_boundary d),
               upper_boundary := (if n = 244 then 143 else upper_boundary d),
               bytes_needed := 3, code_point := unat (b AND 7)\<rparr>)
      else emit d 65533)"

definition decode_byte :: "utf8 \<Rightarrow> byte \<Rightarrow> str \<times> utf8" where
  "decode_byte d b =
     (if bytes_needed d = 0 then lead_byte d b
      else if unat b < lower_boundary d \<or> upper_boundary d < unat b then
        (let (bad, d1) = emit (reset d) 65533;
             (out, d2) = lead_byte d1 b
         in (bad @ out, d2))
      else
        (let d1 = d\<lparr>lower_boundary := 128, upper_boundary := 191,
                       code_point := push_bit 6 (code_point d) OR unat (b AND 63),
                       bytes_seen := bytes_seen d + 1\<rparr>
         in if bytes_seen d1 \<noteq> bytes_needed d1 then ([], d1)
            else emit (reset d1) (code_point d1)))"

fun decode :: "utf8 \<Rightarrow> byte list \<Rightarrow> str \<times> utf8" where
  \<comment> \<open>\<open>decoder.decode(value, { stream: true })\<close>: the text and the decoder afterwards\<close>
  "decode d [] = ([], d)"
| "decode d (b # bs) =
     (let (out, d1) = decode_byte d b; (more, d2) = decode d1 bs in (out @ more, d2))"

section \<open>The stream decoder of \<open>streamChat\<close>\<close>

datatype attempt = Threw | Quiet | Passed json

text \<open>
  The \<open>onDelta\<close> that \<open>sendMessage\<close> passes is \<open>updateAssistant\<close>, and its first statement
  \<open>assistantContent += chunk\<close> turns the chunk into a string.  The conversion throws a
  \<open>TypeError\<close> for an object that has a member \<open>toString\<close> of its own (a parsed value is
  never callable), and for an array that holds such a value; nothing is added then, and
  the exception is caught by the \<open>catch\<close> around the call.
\<close>

fun unprintable :: "json \<Rightarrow> bool" where
  "unprintable (JObj kvs) = (map_of (rev kvs) (lit ''toString'') \<noteq> None)"
| "unprintable (JArr xs) = (\<exists>x \<in> set xs. unprintable x)"
| "unprintable v = False"

definition try_block :: "str \<Rightarrow> attempt" where
  \<comment> \<open>the body of \<open>try\<close>: \<open>Threw\<close> when \<open>JSON.parse\<close>, the member access or \<open>onDelta\<close>
      throws, \<open>Passed c\<close> when \<open>onDelta(c)\<close> is called and returns, \<open>Quiet\<close> when the content
      is falsy\<close>
  "try_block jsonStr =
     (case JSON_parse jsonStr of
        None \<Rightarrow> Threw
      | Some parsed \<Rightarrow>
          (case delta_content parsed of
             Inl e \<Rightarrow> Threw
           | Inr content \<Rightarrow>
               (case content of
                  None \<Rightarrow> Quiet
                | Some c \<Rightarrow>
                    if truthy content then (if unprintable c then Threw else Passed c)
                    else Quiet)))"

function read_lines :: "str \<Rightarrow> str \<times> json list \<times> bool" where
  \<comment> \<open>the inner \<open>while\<close> loop: the text buffer it leaves, the contents it passes to
      \<open>onDelta\<close>, and \<open>streamDone\<close>\<close>
  "read_lines textBuffer =
     (case indexOf 10 textBuffer of
        None \<Rightarrow> (textBuffer, [], False)
      | Some newlineIndex \<Rightarrow>
          (let line0 = take newlineIndex textBuffer;
               rest = drop (newlineIndex + 1) textBuffer;
               line = (if endsWith [13] line0 then butlast line0 else line0)
           in if startsWith (lit '':'') line \<or> trim line = [] then read_lines rest
              else if \<not> startsWith (lit ''data: '') line then read_lines rest
              else
                (let jsonStr = trim (drop 6 line)
                 in if jsonStr = lit ''[DONE]'' then (rest, [], True)
                    else
                      (case try_block jsonStr of
                         Passed c \<Rightarrow>
                           (case read_lines rest of (b, ds, done) \<Rightarrow> (b, c # ds, done))
                       | Quiet \<Rightarrow> read_lines rest
                       | Threw \<Rightarrow> (line @ [10] @ rest, [], False)))))"
  by pat_completeness auto
termination
proof -
  have found: "i < length xs" if "indexOf c xs = Some i" for c xs i
    using that by (induction xs arbitrary: i) (auto split: if_splits)
  show ?thesis
    by (relation "measure length") (auto dest: found)
qed

declare read_lines.simps [simp del]

datatype reader_end = Closed | Failed str

fun read_loop ::
  "reader_end \<Rightarrow> utf8 \<Rightarrow> str \<Rightarrow> byte list list \<Rightarrow> str \<times> json list \<times> str option" where
  \<comment> \<open>the outer \<open>while (!streamDone)\<close> loop over the chunks \<open>reader.read()\<close> delivers;
      after the last chunk the reader reports \<open>done\<close> or rejects with an error\<close>
  "read_loop fin decoder textBuffer [] =
     (textBuffer, [], case fin of Closed \<Rightarrow> None | Failed e \<Rightarrow> Some e)"
| "read_loop fin decoder textBuffer (v # chunks) =
     (let (t, decoder') = decode decoder v;
          (textBuffer', ds, streamDone) = read_lines (textBuffer @ t)
      in if streamDone then (textBuffer', ds, None)
         else (case read_loop fin decoder' textBuffer' chunks of
                 (b, ds', err) \<Rightarrow> (b, ds @ ds', err)))"

definition flush_line :: "str \<Rightarrow> json list" where
  \<comment> \<open>one round of the loop over \<open>textBuffer.split("\n")\<close>\<close>
  "flush_line raw =
     (if raw = [] \<or> startsWith (lit '':'') raw \<or> trim raw = [] then []
      else if \<not> startsWith (lit ''data: '') raw then []
      else
        (let jsonStr = trim (drop 6 raw)
         in if jsonStr = lit ''[DONE]'' then []
            else (case try_block jsonStr of Passed c \<Rightarrow> [c] | Quiet \<Rightarrow> [] | Threw \<Rightarrow> [])))"

definition flush :: "str \<Rightarrow> json list" where
  \<comment> \<open>\<open>// Flush remaining content\<close>\<close>
  "flush textBuffer =
     (if trim textBuffer \<noteq> [] then concat (map flush_line (split 10 textBuffer)) else [])"

text \<open>
  A response: \<open>errorData\<close> is the value \<open>resp.json()\<close> resolves to, \<open>None\<close> when it rejects
  because the body is not JSON; \<open>body\<close> is the chunks the reader delivers and how it ends.
\<close>

record response =
  status :: nat
  errorData :: "json option"
  body :: "(byte list list \<times> reader_end) option"

datatype fetch_result = Rejected str | Resolved response

datatype callback = OnDelta json | OnDone

text \<open>
  What \<open>streamChat\<close> throws: an \<open>Error\<close> with a message, an \<open>Error\<close> whose message is the
  string conversion of a parsed value, or an exception raised by the engine.
\<close>

datatype thrown = Error str | ErrorOf json | Raised js_exception

definition ok :: "response \<Rightarrow> bool" where
  "ok resp = (200 \<le> status resp \<and> status resp \<le> 299)"

definition rate_limit_message :: str where
  "rate_limit_message = lit ''Rate limit exceeded. Please wait a moment and try again.''"

definition usage_limit_message :: str where
  "usage_limit_message = lit ''AI usage limit reached. Please add credits to continue.''"

definition connection_error :: "json \<Rightarrow> thrown" where
  \<comment> \<open>\<open>new Error(errorData.error || "Failed to connect to AI")\<close>: reading a member of
      \<open>null\<close> throws, and so does the string conversion of the message\<close>
  "connection_error data =
     (if data = JNull then Raised TypeError
      else (case get_member (lit ''error'') data of
              None \<Rightarrow> Error (lit ''Failed to connect to AI'')
            | Some e \<Rightarrow>
                if truthy (Some e) then (if unprintable e then Raised TypeError else ErrorOf e)
                else Error (lit ''Failed to connect to AI'')))"

definition streamChat :: "fetch_result \<Rightarrow> callback list \<times> thrown option" where
  \<comment> \<open>the callbacks \<open>streamChat\<close> makes, in order, and what it throws, if anything\<close>
  "streamChat r =
     (case r of
        Rejected e \<Rightarrow> ([], Some (Error e))
      | Resolved resp \<Rightarrow>
          if \<not> ok resp then
            (let data = (case errorData resp of None \<Rightarrow> JObj [] | Some v \<Rightarrow> v)
             in ([], Some (if status resp = 429 then Error rate_limit_message
                           else if status resp = 402 then Error usage_limit_message
                           else connection_error data)))
          else
            (case body resp of
               None \<Rightarrow> ([], Some (Error (lit ''No response body'')))
             | Some (chunks, fin) \<Rightarrow>
                 (case read_loop fin new_TextDecoder [] chunks of
                    (textBuffer, ds, Some e) \<Rightarrow> (map OnDelta ds, Some (Error e))
                  | (textBuffer, ds, None) \<Rightarrow>
                      (map OnDelta (ds @ flush textBuffer) @ [OnDone], None))))"

section \<open>The transcript and the chat session\<close>

datatype role = User | Assistant

record message =
  msg_id :: str
  role :: role
  content :: str

record conversation =
  conv_id :: str
  title :: str
  updatedAt :: nat

definition INITIAL_MESSAGE :: message where
  \<comment> \<open>\<open>// Welcome message shown at the start of every chat\<close>\<close>
  "INITIAL_MESSAGE =
     \<lparr>msg_id = lit ''welcome'', role = Assistant,
      content =
        lit ''Hello! I'' @ [39] @ lit ''m your EduVerse USA study assistant. I can help you with U.S. university admissions, Statement of Purpose guidance, scholarship opportunities, and test preparation for GRE, TOEFL, and IELTS.''
        @ [10, 10] @ lit ''How can I assist you today?''\<rparr>"

text \<open>
  The \<open>message\<close> of a caught error is a known string or the text the engine gives to an
  exception of its own.
\<close>

datatype error_message = Message str | EngineMessage js_exception

datatype toast = ToastError str | ToastEngineError js_exception | ToastSuccess str

text \<open>
  The local variables of a running \<open>sendMessage\<close> that its callbacks close over.
\<close>

record closure =
  convId :: "str option"
  assistantContent :: str
  sender :: "str option"

text \<open>
  The state of the hooks \<open>useChat\<close> and \<open>useConversations\<close>, with what they have done to
  the outside: the toasts shown, the rows \<open>saveMessage\<close> has sent to the database (role,
  content, conversation) and the message lists posted to the chat function.  \<open>stream\<close> is the closure
  of the send in flight, if there is one.
\<close>

record session =
  user :: "str option"
  isLoading :: bool
  conversations :: "conversation list"
  activeConversationId :: "str option"
  messages :: "message list"
  toasts :: "toast list"
  saved :: "(role \<times> str \<times> str) list"
  requests :: "(role \<times> str) list list"
  stream :: "closure option"

definition initial_session :: session where
  "initial_session =
     \<lparr>user = None, isLoading = False, conversations = [], activeConversationId = None,
      messages = [INITIAL_MESSAGE], toasts = [], saved = [], requests = [], stream = None\<rparr>"

definition given :: "str option \<Rightarrow> bool" where
  \<comment> \<open>the truth value of a string or \<open>null\<close>\<close>
  "given x = (case x of None \<Rightarrow> False | Some v \<Rightarrow> v \<noteq> [])"

definition saveMessage :: "str option \<Rightarrow> role \<Rightarrow> str \<Rightarrow> str \<Rightarrow> session \<Rightarrow> session" where
  \<comment> \<open>\<open>u\<close> is the \<open>user\<close> the callback has captured\<close>
  "saveMessage u r c conversationId s =
     (if u = None then s else s\<lparr>saved := saved s @ [(r, c, conversationId)]\<rparr>)"

definition createConversation ::
  "str \<Rightarrow> (str \<times> nat) option \<Rightarrow> session \<Rightarrow> str option \<times> session" where
  \<comment> \<open>\<open>inserted\<close> is the answer of the database: the id and time stamp of the new row, or
      \<open>None\<close> for an error\<close>
  "createConversation ttl inserted s =
     (if user s = None then (None, s)
      else (case inserted of
              None \<Rightarrow>
                (None, s\<lparr>toasts := toasts s @ [ToastError (lit ''Failed to create conversation'')]\<rparr>)
            | Some (new_id, stamp) \<Rightarrow>
                (Some new_id,
                 s\<lparr>conversations :=
                     \<lparr>conv_id = new_id, title = ttl, updatedAt = stamp\<rparr> # conversations s,
                   activeConversationId := Some new_id,
                   messages := [INITIAL_MESSAGE]\<rparr>)))"

definition chatHistory :: "message list \<Rightarrow> (role \<times> str) list" where
  "chatHistory ms = map (\<lambda>m. (role m, content m)) ms"

definition begin_send :: "str \<Rightarrow> nat \<Rightarrow> (str \<times> nat) option \<Rightarrow> session \<Rightarrow> session" where
  \<comment> \<open>\<open>sendMessage(input)\<close> up to the call of \<open>fetch\<close>; \<open>now\<close> is \<open>Date.now()\<close>\<close>
  "begin_send input now inserted s =
     (if trim input = [] \<or> isLoading s then s
      else
        (let userMessage = \<lparr>msg_id = toString now, role = User, content = trim input\<rparr>;
             s1 = s\<lparr>messages := messages s @ [userMessage], isLoading := True\<rparr>;
             (cid, s2) =
               (if user s \<noteq> None \<and> \<not> given (activeConversationId s) then
                  createConversation
                    (take 40 (trim input) @ (if length input > 40 then lit ''...'' else []))
                    inserted s1
                else (activeConversationId s, s1));
             s3 = (if user s \<noteq> None \<and> given cid
                   then saveMessage (user s) User (trim input)
                          (case cid of Some c \<Rightarrow> c | None \<Rightarrow> []) s2
                   else s2)
         in s3\<lparr>requests := requests s3 @ [chatHistory (messages s @ [userMessage])],
               stream := Some \<lparr>convId = cid, assistantContent = [], sender = user s\<rparr>\<rparr>))"

definition apply_delta :: "str \<Rightarrow> message list \<Rightarrow> message list" where
  \<comment> \<open>the update \<open>updateAssistant\<close> gives to \<open>setMessages\<close>, for the new \<open>assistantContent\<close>\<close>
  "apply_delta acc prev =
     (if prev \<noteq> [] \<and> role (last prev) = Assistant \<and> msg_id (last prev) = lit ''streaming''
      then map (\<lambda>(i, m). if i = length prev - 1 then m\<lparr>content := acc\<rparr> else m)
             (enumerate 0 prev)
      else prev @ [\<lparr>msg_id = lit ''streaming'', role = Assistant, content = acc\<rparr>])"

definition updateAssistant :: "closure \<Rightarrow> str \<Rightarrow> session \<Rightarrow> closure \<times> session" where
  "updateAssistant cl chunk s =
     (let cl' = cl\<lparr>assistantContent := assistantContent cl @ chunk\<rparr>
      in (cl', s\<lparr>messages := apply_delta (assistantContent cl') (messages s)\<rparr>))"

definition finalize :: "nat \<Rightarrow> message list \<Rightarrow> message list" where
  \<comment> \<open>\<open>// Finalize message with real ID\<close>\<close>
  "finalize now prev =
     map (\<lambda>m. if msg_id m = lit ''streaming'' then m\<lparr>msg_id := toString now\<rparr> else m) prev"

definition onDone :: "closure \<Rightarrow> nat \<Rightarrow> session \<Rightarrow> session" where
  \<comment> \<open>the completion handler \<open>sendMessage\<close> passes to \<open>streamChat\<close>\<close>
  "onDone cl now s =
     (let s1 = s\<lparr>messages := finalize now (messages s), isLoading := False\<rparr>
      in if sender cl \<noteq> None \<and> given (convId cl) \<and> assistantContent cl \<noteq> []
         then saveMessage (sender cl) Assistant (assistantContent cl)
                (case convId cl of Some c \<Rightarrow> c | None \<Rightarrow> []) s1
         else s1)"

definition on_error :: "error_message \<Rightarrow> session \<Rightarrow> session" where
  \<comment> \<open>the \<open>catch\<close> block of \<open>sendMessage\<close>; everything \<open>streamChat\<close> throws is an
      \<open>Error\<close>, so the toast shows its message\<close>
  "on_error msg s =
     s\<lparr>toasts := toasts s @ [case msg of Message m \<Rightarrow> ToastError m
                                 | EngineMessage x \<Rightarrow> ToastEngineError x],
       isLoading := False\<rparr>"

definition load_messages :: "message list option \<Rightarrow> session \<Rightarrow> session" where
  \<comment> \<open>the effect \<open>// Load messages when switching conversations\<close>; \<open>rows\<close> is what the
      database returns, \<open>None\<close> for an error\<close>
  "load_messages rows s =
     (if user s = None \<or> \<not> given (activeConversationId s) then s\<lparr>messages := [INITIAL_MESSAGE]\<rparr>
      else (case rows of
              None \<Rightarrow> s
            | Some loaded \<Rightarrow>
                if loaded \<noteq> [] then s\<lparr>messages := INITIAL_MESSAGE # loaded\<rparr>
                else s\<lparr>messages := [INITIAL_MESSAGE]\<rparr>))"

definition selectConversation :: "str \<Rightarrow> session \<Rightarrow> session" where
  "selectConversation conversationId s = s\<lparr>activeConversationId := Some conversationId\<rparr>"

definition startNewChat :: "session \<Rightarrow> session" where
  "startNewChat s = s\<lparr>activeConversationId := None, messages := [INITIAL_MESSAGE]\<rparr>"

definition deleteConversation :: "str \<Rightarrow> bool \<Rightarrow> session \<Rightarrow> session" where
  \<comment> \<open>\<open>failed\<close>: the database reported an error\<close>
  "deleteConversation conversationId failed s =
     (if failed then s\<lparr>toasts := toasts s @ [ToastError (lit ''Failed to delete conversation'')]\<rparr>
      else
        (let s1 = s\<lparr>conversations := filter (\<lambda>c. conv_id c \<noteq> conversationId) (conversations s)\<rparr>;
             s2 = (if activeConversationId s = Some conversationId
                   then s1\<lparr>activeConversationId := None, messages := [INITIAL_MESSAGE]\<rparr>
                   else s1)
         in s2\<lparr>toasts := toasts s2 @ [ToastSuccess (lit ''Conversation deleted'')]\<rparr>))"

definition clearAllHistory :: "bool \<Rightarrow> session \<Rightarrow> session" where
  "clearAllHistory failed s =
     (if user s = None then s
      else if failed then s\<lparr>toasts := toasts s @ [ToastError (lit ''Failed to clear history'')]\<rparr>
      else s\<lparr>conversations := [], activeConversationId := None, messages := [INITIAL_MESSAGE],
             toasts := toasts s @ [ToastSuccess (lit ''All conversations deleted'')]\<rparr>)"

definition auth_change :: "str option \<Rightarrow> conversation list option \<Rightarrow> session \<Rightarrow> session" where
  \<comment> \<open>\<open>setUser\<close> and the two effects that depend on \<open>user\<close>.  \<open>setUser(null)\<close> without a
      user changes no state and runs no effect.  For a user, \<open>listed\<close> is what the database
      returns to \<open>loadConversations\<close>, \<open>None\<close> for an error, and the effect
      \<open>// Load messages when switching conversations\<close> resets the transcript at once when
      no conversation is active; with an active conversation it asks the database, whose
      answer is the event \<open>LoadMessages\<close>\<close>
  "auth_change u listed s =
     (case u of
        None \<Rightarrow>
          if user s = None then s
          else s\<lparr>user := None, conversations := [], activeConversationId := None,
                 messages := [INITIAL_MESSAGE]\<rparr>
      | Some uid \<Rightarrow>
          (let s1 = (case listed of
                       None \<Rightarrow> s\<lparr>user := u\<rparr>
                     | Some convs \<Rightarrow> s\<lparr>user := u, conversations := convs\<rparr>)
           in if given (activeConversationId s) then s1
              else s1\<lparr>messages := [INITIAL_MESSAGE]\<rparr>))"

text \<open>
  The session runs one event at a time: a user action, an answer of the database, or a
  callback of the stream in flight.  \<open>streamChat\<close> calls \<open>onDone\<close> last or throws, so after
  \<open>Done\<close> and \<open>Throw\<close> no closure is left; a stream event without a closure does nothing.
\<close>

datatype event =
    Send str nat "(str \<times> nat) option"
  | Delta str
  | Done nat
  | Throw error_message
  | Select str
  | LoadMessages "message list option"
  | NewChat
  | Delete str bool
  | ClearAll bool
  | AuthChange "str option" "conversation list option"

fun step :: "event \<Rightarrow> session \<Rightarrow> session" where
  "step (Send input now inserted) s = begin_send input now inserted s"
| "step (Delta chunk) s =
     (case stream s of
        None \<Rightarrow> s
      | Some cl \<Rightarrow> (case updateAssistant cl chunk s of (cl', s') \<Rightarrow> s'\<lparr>stream := Some cl'\<rparr>))"
| "step (Done now) s =
     (case stream s of None \<Rightarrow> s | Some cl \<Rightarrow> (onDone cl now s)\<lparr>stream := None\<rparr>)"
| "step (Throw msg) s =
     (case stream s of None \<Rightarrow> s | Some cl \<Rightarrow> (on_error msg s)\<lparr>stream := None\<rparr>)"
| "step (Select conversationId) s = selectConversation conversationId s"
| "step (LoadMessages rows) s = load_messages rows s"
| "step NewChat s = startNewChat s"
| "step (Delete conversationId failed) s = deleteConversation conversationId failed s"
| "step (ClearAll failed) s = clearAllHistory failed s"
| "step (AuthChange u listed) s = auth_change u listed s"

definition run :: "event list \<Rightarrow> session \<Rightarrow> session" where
  "run evs s = foldl (\<lambda>s ev. step ev s) s evs"

text \<open>
  A whole \<open>sendMessage\<close> with no other event in between.  A chunk that is not a string is
  turned into one by \<open>assistantContent += chunk\<close>; \<open>nts\<close> is the platform's conversion of a
  number.
\<close>

fun join :: "str list \<Rightarrow> str" where
  "join [] = []"
| "join [x] = x"
| "join (x # xs) = x @ [44] @ join xs"

fun js_string :: "(rat \<Rightarrow> str) \<Rightarrow> bool \<Rightarrow> json \<Rightarrow> str" where
  \<comment> \<open>\<open>ToString\<close>; inside an array (\<open>in_array\<close>) \<open>null\<close> gives the empty string\<close>
  "js_string nts in_array JNull = (if in_array then [] else lit ''null'')"
| "js_string nts in_array (JBool b) = (if b then lit ''true'' else lit ''false'')"
| "js_string nts in_array (JNum q) = nts q"
| "js_string nts in_array (JStr s) = s"
| "js_string nts in_array (JArr xs) = join (map (js_string nts True) xs)"
| "js_string nts in_array (JObj kvs) = lit ''[object Object]''"

fun stream_event :: "(rat \<Rightarrow> str) \<Rightarrow> nat \<Rightarrow> callback \<Rightarrow> event" where
  "stream_event nts now (OnDelta c) = Delta (js_string nts False c)"
| "stream_event nts now OnDone = Done now"

fun caught :: "(rat \<Rightarrow> str) \<Rightarrow> thrown \<Rightarrow> event" where
  \<comment> \<open>\<open>error.message\<close> in the \<open>catch\<close> block\<close>
  "caught nts (Error m) = Throw (Message m)"
| "caught nts (ErrorOf v) = Throw (Message (js_string nts False v))"
| "caught nts (Raised x) = Throw (EngineMessage x)"

definition sendMessage ::
  "(rat \<Rightarrow> str) \<Rightarrow> str \<Rightarrow> nat \<Rightarrow> (str \<times> nat) option \<Rightarrow> fetch_result \<Rightarrow> nat \<Rightarrow> session \<Rightarrow> session" where
  \<comment> \<open>\<open>now\<close> and \<open>later\<close> are the values of \<open>Date.now()\<close> for the user message and at
      completion\<close>
  "sendMessage nts input now inserted r later s =
     (if trim input = [] \<or> isLoading s then s
      else
        (case streamChat r of
           (calls, thrown) \<Rightarrow>
             run (map (stream_event nts later) calls
                    @ (case thrown of None \<Rightarrow> [] | Some e \<Rightarrow> [caught nts e]))
                 (begin_send input now inserted s)))"

text \<open>
  What one round of the inner loop does with the line it has cut off the buffer: go on to
  the next line (after passing the listed contents to \<open>onDelta\<close>), stop at the sentinel,
  or push the line back.  Lemma \<open>read_lines_line\<close> shows that \<open>read_lines\<close> does exactly
  this with the first line of its buffer.
\<close>

datatype outcome = Continue "json list" | Stop | PushBack str

definition strip_cr :: "str \<Rightarrow> str" where
  \<comment> \<open>\<open>if (line.endsWith("\r")) line = line.slice(0, -1)\<close>\<close>
  "strip_cr line = (if endsWith [13] line then butlast line else line)"

definition line_step :: "str \<Rightarrow> outcome" where
  "line_step line0 =
     (let line = strip_cr line0
      in if startsWith (lit '':'') line \<or> trim line = [] then Continue []
         else if \<not> startsWith (lit ''data: '') line then Continue []
         else
           (let jsonStr = trim (drop 6 line)
            in if jsonStr = lit ''[DONE]'' then Stop
               else (case try_block jsonStr of
                       Passed c \<Rightarrow> Continue [c]
                     | Quiet \<Rightarrow> Continue []
                     | Threw \<Rightarrow> PushBack line)))"

definition ascii :: "string \<Rightarrow> byte list" where
  \<comment> \<open>the bytes of an ASCII literal\<close>
  "ascii s = map of_char s"

section \<open>Properties of the stream decoder\<close>

lemma indexOf_None: "c \<notin> set xs \<Longrightarrow> indexOf c xs = None"
  by (induction xs) auto

lemma indexOf_first: "c \<notin> set l \<Longrightarrow> indexOf c (l @ c # r) = Some (length l)"
  by (induction l) auto

lemma read_lines_fragment: "10 \<notin> set b \<Longrightarrow> read_lines b = (b, [], False)"
  by (subst read_lines.simps) (simp add: indexOf_None)

lemma read_lines_line:
  assumes "10 \<notin> set l"
  shows "read_lines (l @ 10 # r) =
     (case line_step l of
        Continue ds \<Rightarrow> (case read_lines r of (b, ds', d) \<Rightarrow> (b, ds @ ds', d))
      | Stop \<Rightarrow> (r, [], True)
      | PushBack line \<Rightarrow> (line @ 10 # r, [], False))"
  by (subst read_lines.simps)
     (simp add: indexOf_first[OF assms] line_step_def strip_cr_def Let_def
           split: attempt.splits prod.splits)

text \<open>
  Text that arrives later does not change what the loop has done with the text before it:
  after the sentinel or a push-back the new text is only appended to the buffer, otherwise
  the loop goes on from the unfinished line it had kept.
\<close>

lemma read_lines_append:
  "read_lines (X @ Y) =
     (case read_lines X of
        (b, e, d) \<Rightarrow>
          if d \<or> 10 \<in> set b then (b @ Y, e, d)
          else (case read_lines (b @ Y) of (b', e', d') \<Rightarrow> (b', e @ e', d')))"
proof (induction X rule: length_induct)
  case (1 X)
  show ?case
  proof (cases "10 \<in> set X")
    case False
    then show ?thesis
      by (simp add: read_lines_fragment split: prod.splits)
  next
    case True
    then obtain l r where X: "X = l @ 10 # r" and l: "10 \<notin> set l"
      by (auto dest: split_list_first)
    have IH: "read_lines (r @ Y) =
      (case read_lines r of
        (b, e, d) \<Rightarrow>
          if d \<or> 10 \<in> set b then (b @ Y, e, d)
          else (case read_lines (b @ Y) of (b', e', d') \<Rightarrow> (b', e @ e', d')))"
      using 1 X by simp
    have XY: "X @ Y = l @ 10 # (r @ Y)"
      using X by simp
    show ?thesis
      unfolding XY unfolding X
      by (simp only: read_lines_line[OF l] IH)
         (simp split: outcome.splits prod.splits)
  qed
qed

lemma decode_append:
  "decode d (xs @ ys) =
     (case decode d xs of (a, d1) \<Rightarrow> (case decode d1 ys of (b, d2) \<Rightarrow> (a @ b, d2)))"
  by (induction xs arbitrary: d) (auto split: prod.splits)

text \<open>
  If the loop, run on the whole decoded text at once, reaches the sentinel, then it does so
  for every way the bytes are cut into chunks, with the same contents passed on; the buffer
  it leaves is an initial part of what is left over in the whole text.
\<close>

lemma read_loop_reaches_done:
  assumes "read_lines (textBuffer @ fst (decode decoder (concat chunks))) = (R, E, True)"
    and "10 \<notin> set textBuffer"
  shows "\<exists>b t. read_loop fin decoder textBuffer chunks = (b, E, None) \<and> R = b @ t"
  using assms
proof (induction chunks arbitrary: decoder textBuffer E)
  case Nil
  then show ?case by (simp add: read_lines_fragment)
next
  case (Cons v chunks)
  obtain t d1 where dec: "decode decoder v = (t, d1)"
    by (cases "decode decoder v")
  obtain t' d2 where dec': "decode d1 (concat chunks) = (t', d2)"
    by (cases "decode d1 (concat chunks)")
  obtain b e d where rl: "read_lines (textBuffer @ t) = (b, e, d)"
    by (cases "read_lines (textBuffer @ t)")
  have whole: "read_lines ((textBuffer @ t) @ t') = (R, E, True)"
    using Cons.prems(1) dec dec' by (simp add: decode_append)
  show ?case
  proof (cases "d \<or> 10 \<in> set b")
    case True
    with whole rl have "R = b @ t'" "e = E" "d"
      by (auto simp: read_lines_append[of "textBuffer @ t" t'] simp del: append_assoc)
    then show ?thesis
      using dec rl by simp
  next
    case False
    with whole rl obtain e' where e': "read_lines (b @ t') = (R, e', True)" and E: "E = e @ e'"
      by (auto simp: read_lines_append[of "textBuffer @ t" t'] simp del: append_assoc
               split: prod.splits)
    obtain b2 t2 where "read_loop fin d1 b chunks = (b2, e', None)" "R = b2 @ t2"
      using Cons.IH[of b d1 e'] e' dec' False by auto
    then show ?thesis
      using dec rl False E by simp
  qed
qed

lemma lit_data: "lit ''data: '' = [100, 97, 116, 97, 58, 32]"
  by (simp add: lit_def)

lemma lit_colon: "lit '':'' = [58]"
  by (simp add: lit_def)

lemma lit_done: "lit ''[DONE]'' = [91, 68, 79, 78, 69, 93]"
  by (simp add: lit_def)

lemma JSON_parse_done: "JSON_parse (lit ''[DONE]'') = None"
  by (simp add: JSON_parse_def lit_done is_json_ws_def is_digit_def)

lemma trim_spaces: "\<forall>c\<in>set s. is_space c \<Longrightarrow> trim s = []"
proof -
  assume "\<forall>c\<in>set s. is_space c"
  then show ?thesis by (auto simp: trim_def dest: set_dropWhileD)
qed

lemma trim_butlast:
  assumes "s \<noteq> []" "is_space (last s)"
  shows "trim (butlast s) = trim s"
proof -
  obtain s' c where s: "s = s' @ [c]" and c: "is_space c"
    using assms by (metis append_butlast_last_id)
  show ?thesis
  proof (cases "\<forall>x\<in>set s'. is_space x")
    case True
    then show ?thesis using c by (auto simp: s trim_def dropWhile_append dest: set_dropWhileD)
  next
    case False
    then show ?thesis using c by (auto simp: s trim_def dropWhile_append)
  qed
qed

lemma strip_cr_data:
  "strip_cr (lit ''data: '' @ j) = lit ''data: '' @ strip_cr j"
  by (cases j rule: rev_cases) (auto simp: strip_cr_def endsWith_def lit_data butlast_append)

lemma trim_strip_cr: "trim (strip_cr j) = trim j"
proof (cases j rule: rev_cases)
  case Nil
  then show ?thesis by (simp add: strip_cr_def endsWith_def)
next
  case (snoc ys y)
  show ?thesis
  proof (cases "y = 13")
    case True
    have "trim (butlast (ys @ [13])) = trim (ys @ [13])"
      by (rule trim_butlast) (simp_all add: is_space_def)
    then show ?thesis using snoc True by (simp add: strip_cr_def endsWith_def)
  next
    case False
    then show ?thesis using snoc by (simp add: strip_cr_def endsWith_def)
  qed
qed

lemma trim_data_nonempty: "trim (lit ''data: '' @ j) \<noteq> []"
  by (simp add: trim_def lit_data is_space_def)

lemma line_step_data:
  "line_step (lit ''data: '' @ j) =
     (if trim j = lit ''[DONE]'' then Stop
      else (case try_block (trim j) of
              Passed c \<Rightarrow> Continue [c]
            | Quiet \<Rightarrow> Continue []
            | Threw \<Rightarrow> PushBack (lit ''data: '' @ strip_cr j)))"
proof -
  have a: "\<not> startsWith (lit '':'') (lit ''data: '' @ strip_cr j)"
    by (simp add: startsWith_def lit_data lit_colon)
  have b: "startsWith (lit ''data: '') (lit ''data: '' @ strip_cr j)"
    by (simp add: startsWith_def)
  have c: "length (lit ''data: '') = 6"
    by (simp add: lit_data)
  show ?thesis
    by (simp add: line_step_def strip_cr_data a b c trim_data_nonempty trim_strip_cr)
qed

lemma lit_data_done: "lit ''data: [DONE]'' = lit ''data: '' @ lit ''[DONE]''"
  by (simp add: lit_def)

lemma trim_done: "trim (lit ''[DONE]'') = lit ''[DONE]''"
  by (simp add: trim_def lit_done is_space_def)

lemma read_lines_done_line:
  "read_lines (lit ''data: [DONE]'' @ 10 # r) = (r, [], True)"
proof -
  have "10 \<notin> set (lit ''data: '' @ lit ''[DONE]'')"
    by (simp add: lit_data lit_done)
  from read_lines_line[OF this, of r] show ?thesis
    by (simp add: lit_data_done line_step_data trim_done)
qed

lemma try_block_string:
  assumes "JSON_parse p = Some v" "delta_content v = Inr (Some (JStr c))"
  shows "try_block p = (if c = [] then Quiet else Passed (JStr c))"
  using assms by (simp add: try_block_def)

lemma read_lines_delta_lines:
  assumes "\<forall>(j, c) \<in> set jcs. 10 \<notin> set j \<and>
             (\<exists>v. JSON_parse (trim j) = Some v \<and> delta_content v = Inr (Some (JStr c)))"
  shows "read_lines (concat (map (\<lambda>(j, c). lit ''data: '' @ j @ [10]) jcs) @ r) =
     (case read_lines r of
        (b, e, d) \<Rightarrow> (b, map JStr (filter (\<lambda>c. c \<noteq> []) (map snd jcs)) @ e, d))"
  using assms
proof (induction jcs)
  case Nil
  then show ?case by simp
next
  case (Cons jc jcs)
  obtain j c where jc: "jc = (j, c)" by (cases jc)
  from Cons.prems jc obtain v where nl: "10 \<notin> set j"
    and v: "JSON_parse (trim j) = Some v" "delta_content v = Inr (Some (JStr c))"
    by auto
  have not_done: "trim j \<noteq> lit ''[DONE]''"
    using v(1) JSON_parse_done by auto
  have step: "line_step (lit ''data: '' @ j) = Continue (if c = [] then [] else [JStr c])"
    by (simp add: line_step_data not_done try_block_string[OF v])
  have nl': "10 \<notin> set (lit ''data: '' @ j)"
    using nl by (simp add: lit_data)
  have IH: "read_lines (concat (map (\<lambda>(j, c). lit ''data: '' @ j @ [10]) jcs) @ r) =
     (case read_lines r of
        (b, e, d) \<Rightarrow> (b, map JStr (filter (\<lambda>c. c \<noteq> []) (map snd jcs)) @ e, d))"
    using Cons by simp
  have "read_lines (concat (map (\<lambda>(j, c). lit ''data: '' @ j @ [10]) (jc # jcs)) @ r) =
        read_lines ((lit ''data: '' @ j) @ 10 # (concat (map (\<lambda>(j, c). lit ''data: '' @ j @ [10]) jcs) @ r))"
    by (simp add: jc)
  also have "\<dots> = (case read_lines r of
        (b, e, d) \<Rightarrow> (b, map JStr (filter (\<lambda>c. c \<noteq> []) (map snd (jc # jcs))) @ e, d))"
    by (simp only: read_lines_line[OF nl'] step IH) (simp add: jc split: prod.splits)
  finally show ?case .
qed

lemma split_fragment: "c \<notin> set s \<Longrightarrow> split c s = [s]"
  by (induction s) auto

lemma split_first: "c \<notin> set l \<Longrightarrow> split c (l @ c # r) = l # split c r"
  by (induction l) auto

lemma flush_line_data:
  "flush_line (lit ''data: '' @ j) =
     (if trim j = lit ''[DONE]'' then []
      else (case try_block (trim j) of Passed c \<Rightarrow> [c] | Quiet \<Rightarrow> [] | Threw \<Rightarrow> []))"
proof -
  have a: "\<not> startsWith (lit '':'') (lit ''data: '' @ j)"
    by (simp add: startsWith_def lit_data lit_colon)
  have b: "startsWith (lit ''data: '') (lit ''data: '' @ j)"
    by (simp add: startsWith_def)
  have c: "length (lit ''data: '') = 6" "lit ''data: '' \<noteq> []"
    by (simp_all add: lit_data)
  show ?thesis
    by (simp add: flush_line_def a b c trim_data_nonempty)
qed

lemma read_loop_runs_through:
  assumes "read_lines (textBuffer @ fst (decode decoder (concat chunks))) = (R, E, False)"
    and "10 \<notin> set R" and "10 \<notin> set textBuffer"
  shows "read_loop Closed decoder textBuffer chunks = (R, E, None)"
  using assms
proof (induction chunks arbitrary: decoder textBuffer E)
  case Nil
  then show ?case by (simp add: read_lines_fragment)
next
  case (Cons v chunks)
  obtain t d1 where dec: "decode decoder v = (t, d1)"
    by (cases "decode decoder v")
  obtain t' d2 where dec': "decode d1 (concat chunks) = (t', d2)"
    by (cases "decode d1 (concat chunks)")
  obtain b e d where rl: "read_lines (textBuffer @ t) = (b, e, d)"
    by (cases "read_lines (textBuffer @ t)")
  have whole: "read_lines ((textBuffer @ t) @ t') = (R, E, False)"
    using Cons.prems(1) dec dec' by (simp add: decode_append)
  have running: "\<not> (d \<or> 10 \<in> set b)"
  proof
    assume "d \<or> 10 \<in> set b"
    with whole rl have "R = b @ t'" "\<not> d"
      by (auto simp: read_lines_append[of "textBuffer @ t" t'] simp del: append_assoc)
    with \<open>d \<or> 10 \<in> set b\<close> Cons.prems(2) show False by auto
  qed
  with whole rl obtain e' where e': "read_lines (b @ t') = (R, e', False)" and E: "E = e @ e'"
    by (auto simp: read_lines_append[of "textBuffer @ t" t'] simp del: append_assoc
             split: prod.splits)
  have "read_loop Closed d1 b chunks = (R, e', None)"
    using Cons.IH[of b d1 e'] e' dec' running Cons.prems(2) by simp
  then show ?case
    using dec rl running E by simp
qed

lemma trim_done_spaces:
  assumes "\<forall>x \<in> set w. is_space x"
  shows "trim (lit ''[DONE]'' @ w) = lit ''[DONE]''"
proof -
  have a: "dropWhile is_space (lit ''[DONE]'' @ w) = lit ''[DONE]'' @ w"
    by (simp add: lit_done is_space_def)
  have b: "dropWhile is_space (rev w @ rev (lit ''[DONE]'')) = rev (lit ''[DONE]'')"
    using assms by (simp add: dropWhile_append lit_done is_space_def)
  show ?thesis
    by (simp add: trim_def a b)
qed

lemma sentinel_with_spaces:
  assumes "\<forall>x \<in> set ending. is_space x"
  shows "(\<exists>tail. read_lines (lit ''data: [DONE]'' @ ending) = (tail, [], True)
            \<and> (\<forall>x \<in> set tail. is_space x))
       \<or> (read_lines (lit ''data: [DONE]'' @ ending) = (lit ''data: [DONE]'' @ ending, [], False)
            \<and> 10 \<notin> set (lit ''data: [DONE]'' @ ending)
            \<and> flush (lit ''data: [DONE]'' @ ending) = [])"
proof (cases "10 \<in> set ending")
  case True
  then obtain w1 w2 where e: "ending = w1 @ 10 # w2" and w1: "10 \<notin> set w1"
    by (auto dest: split_list_first)
  have sp: "\<forall>x \<in> set w1. is_space x" "\<forall>x \<in> set w2. is_space x"
    using assms e by auto
  have nl: "10 \<notin> set (lit ''data: '' @ lit ''[DONE]'' @ w1)"
    using w1 by (simp add: lit_data lit_done)
  have "line_step (lit ''data: '' @ lit ''[DONE]'' @ w1) = Stop"
    by (simp add: line_step_data trim_done_spaces[OF sp(1)])
  then have "read_lines (lit ''data: [DONE]'' @ ending) = (w2, [], True)"
    using read_lines_line[OF nl, of w2] by (simp add: lit_data_done e)
  then show ?thesis using sp(2) by blast
next
  case False
  then have nl: "10 \<notin> set (lit ''data: '' @ lit ''[DONE]'' @ ending)"
    by (simp add: lit_data lit_done)
  have "flush_line (lit ''data: '' @ lit ''[DONE]'' @ ending) = []"
    by (simp add: flush_line_data trim_done_spaces[OF assms])
  then have "flush (lit ''data: '' @ lit ''[DONE]'' @ ending) = []"
    using split_fragment[OF nl] by (simp add: flush_def)
  then show ?thesis
    using nl read_lines_fragment[OF nl] by (simp add: lit_data_done)
qed

text \<open>
  Claim C1.  Take a byte sequence that decodes to \<open>N\<close> lines \<open>data: j\<close>, each \<open>j\<close> a JSON
  text whose \<open>choices[0].delta.content\<close> is a string \<open>c\<close>, followed by \<open>data: [DONE]\<close>
  and at most white space (a newline, a carriage return and a newline, a blank line, or
  nothing).  However the bytes are cut into chunks, \<open>streamChat\<close> passes to \<open>onDelta\<close>
  exactly the non-empty contents, in order, then calls \<open>onDone\<close>; the concatenation of what
  it passes is the concatenation of the \<open>N\<close> contents.  The cut may fall inside a
  multi-byte character, inside a JSON escape or inside the sentinel.
\<close>

theorem chunking_independent:
  assumes lines: "\<forall>(j, c) \<in> set jcs. 10 \<notin> set j \<and>
             (\<exists>v. JSON_parse (trim j) = Some v \<and> delta_content v = Inr (Some (JStr c)))"
    and bytes: "fst (decode new_TextDecoder (concat chunks)) =
             concat (map (\<lambda>(j, c). lit ''data: '' @ j @ [10]) jcs) @ lit ''data: [DONE]'' @ ending"
    and ending: "\<forall>x \<in> set ending. is_space x"
    and resp: "ok resp" "body resp = Some (chunks, Closed)"
  shows "streamChat (Resolved resp) =
           (map (\<lambda>c. OnDelta (JStr c)) (filter (\<lambda>c. c \<noteq> []) (map snd jcs)) @ [OnDone], None)
         \<and> concat (filter (\<lambda>c. c \<noteq> []) (map snd jcs)) = concat (map snd jcs)"
proof -
  let ?E = "map JStr (filter (\<lambda>c. c \<noteq> []) (map snd jcs))"
  let ?D = "lit ''data: [DONE]'' @ ending"
  have whole: "read_lines ([] @ fst (decode new_TextDecoder (concat chunks))) =
      (case read_lines ?D of (b, e, d) \<Rightarrow> (b, ?E @ e, d))"
    by (simp add: bytes read_lines_delta_lines[OF lines])
  have "\<exists>b. read_loop Closed new_TextDecoder [] chunks = (b, ?E, None) \<and> flush b = []"
    using sentinel_with_spaces[OF ending]
  proof
    assume "\<exists>tail. read_lines ?D = (tail, [], True) \<and> (\<forall>x \<in> set tail. is_space x)"
    then obtain tail where t: "read_lines ?D = (tail, [], True)" "\<forall>x \<in> set tail. is_space x"
      by blast
    with whole obtain b t' where "read_loop Closed new_TextDecoder [] chunks = (b, ?E, None)"
      and b: "tail = b @ t'"
      using read_loop_reaches_done[of "[]" new_TextDecoder chunks tail ?E Closed] by auto
    moreover have "flush b = []"
      using t(2) b by (simp add: flush_def trim_spaces)
    ultimately show ?thesis by blast
  next
    assume f: "read_lines ?D = (?D, [], False) \<and> 10 \<notin> set ?D \<and> flush ?D = []"
    with whole have "read_loop Closed new_TextDecoder [] chunks = (?D, ?E, None)"
      using read_loop_runs_through[of "[]" new_TextDecoder chunks ?D ?E] by simp
    with f show ?thesis by blast
  qed
  then have "streamChat (Resolved resp) = (map OnDelta ?E @ [OnDone], None)"
    using resp by (auto simp: streamChat_def)
  moreover have "concat (filter (\<lambda>c. c \<noteq> []) (map snd jcs)) = concat (map snd jcs)"
    by (induction jcs) auto
  ultimately show ?thesis by (simp add: comp_def)
qed

text \<open>
  An instance: two lines, the first with the content U+00E9 (two bytes in UTF-8), the
  second with the content \<open>a\<close>, line feed, \<open>b\<close> (the line feed written as the escape
  \<open>\n\<close>); the chunks are cut inside the character, inside the escape and inside the
  sentinel.
\<close>

lemma w_bytes: \<open>fst (decode new_TextDecoder (concat
    [ascii ''data: {"choices":[{"delta":{"content":"'' @ [0xC3],
     [0xA9] @ ascii ''"}}]}'' @ [10] @ ascii ''data: {"choices":[{"delta":{"content":"a'' @ [0x5C],
     ascii ''nb"}}]}'' @ [10] @ ascii ''data: [DO'',
     ascii ''NE]'' @ [10]])) =
   concat (map (\<lambda>(j, c). lit ''data: '' @ j @ [10])
     [(lit ''{"choices":[{"delta":{"content":"'' @ [233] @ lit ''"}}]}'', [233]),
      (lit ''{"choices":[{"delta":{"content":"a'' @ [92] @ lit ''nb"}}]}'', [97, 10, 98])])
   @ lit ''data: [DONE]'' @ [10] @ []\<close>
  by (simp add: ascii_def lit_def decode_byte_def lead_byte_def emit_def reset_def
        new_TextDecoder_def code_units_def Let_def)


lemmas parse_eval = JSON_parse_def lit_def trim_def is_space_def is_json_ws_def is_digit_def
  is_number_char_def startsWith_def escape_def hex_val_def delta_content_def optional_def

lemma w_lines: \<open>\<forall>(j, c) \<in> set
     [(lit ''{"choices":[{"delta":{"content":"'' @ [233] @ lit ''"}}]}'', [233]),
      (lit ''{"choices":[{"delta":{"content":"a'' @ [92] @ lit ''nb"}}]}'', [97, 10, 98])].
     10 \<notin> set j \<and>
       (\<exists>v. JSON_parse (trim j) = Some v \<and> delta_content v = Inr (Some (JStr c)))\<close>
  by (simp add: parse_eval)

theorem chunking_independent_witness:
  \<open>streamChat (Resolved \<lparr>status = 200, errorData = None, body = Some (
    [ascii ''data: {"choices":[{"delta":{"content":"'' @ [0xC3],
     [0xA9] @ ascii ''"}}]}'' @ [10] @ ascii ''data: {"choices":[{"delta":{"content":"a'' @ [0x5C],
     ascii ''nb"}}]}'' @ [10] @ ascii ''data: [DO'',
     ascii ''NE]'' @ [10]], Closed)\<rparr>) =
   ([OnDelta (JStr [233]), OnDelta (JStr [97, 10, 98]), OnDone], None)\<close>
proof -
  have ending: "\<forall>x \<in> set ([10] @ [] :: str). is_space x"
    by (simp add: is_space_def)
  show ?thesis
    using chunking_independent[OF w_lines w_bytes ending]
    by (simp add: ok_def)
qed

lemma startsWith_data:
  assumes "startsWith (lit ''data: '') l"
  shows "l = lit ''data: '' @ drop 6 l"
proof -
  have "length (lit ''data: '') = 6"
    by (simp add: lit_data)
  then have "take 6 l = lit ''data: ''"
    using assms by (simp add: startsWith_def)
  then show ?thesis
    by (metis append_take_drop_id)
qed

lemma strip_cr_no_newline: "10 \<notin> set l \<Longrightarrow> 10 \<notin> set (strip_cr l)"
  by (auto simp: strip_cr_def dest: in_set_butlastD)

lemma read_loop_closed: "\<exists>b ds. read_loop Closed d buf chunks = (b, ds, None)"
proof (induction chunks arbitrary: d buf)
  case Nil
  show ?case by simp
next
  case (Cons v chunks)
  obtain t d1 where dec: "decode d v = (t, d1)" by (cases "decode d v")
  obtain b e fl where rl: "read_lines (buf @ t) = (b, e, fl)" by (cases "read_lines (buf @ t)")
  obtain b2 e2 where "read_loop Closed d1 b chunks = (b2, e2, None)"
    using Cons.IH by blast
  then show ?case using dec rl by simp
qed

text \<open>
  Claim C4.  When the try block throws on a \<open>data: \<close> line, the read loop puts the line
  (without a trailing carriage return) and its newline back in front of the buffer, passes
  nothing to \<open>onDelta\<close> and leaves the rest of the buffer unread.  When more text arrives,
  the same line is the first one tried again.  At the end of input the flush still reads
  every line behind it.  A line cut by a chunk boundary is never tried at all: text without
  a newline stays in the buffer as it is.
\<close>

theorem parse_failure_pushes_back:
  assumes "10 \<notin> set l" and "startsWith (lit ''data: '') l"
    and "trim (drop 6 l) \<noteq> lit ''[DONE]''"
    and "try_block (trim (drop 6 l)) = Threw"
    and "10 \<notin> set fragment"
  shows "read_lines (l @ [10] @ rest) = (strip_cr l @ [10] @ rest, [], False)
       \<and> read_lines ((strip_cr l @ [10] @ rest) @ arriving) =
           (strip_cr (strip_cr l) @ [10] @ rest @ arriving, [], False)
       \<and> flush (strip_cr l @ [10] @ rest) = concat (map flush_line (split 10 rest))
       \<and> read_lines fragment = (fragment, [], False)"
proof -
  define j where "j = drop 6 l"
  have l: "l = lit ''data: '' @ j"
    using assms(2) startsWith_data j_def by simp
  have j: "trim j \<noteq> lit ''[DONE]''" "try_block (trim j) = Threw"
    using assms(3,4) j_def by simp_all
  have step: "line_step l = PushBack (strip_cr l)"
    by (simp add: l line_step_data j strip_cr_data)
  have first: "read_lines (l @ [10] @ rest) = (strip_cr l @ [10] @ rest, [], False)"
    using read_lines_line[OF assms(1), of rest] step by simp
  have nl: "10 \<notin> set (strip_cr l)"
    using assms(1) by (rule strip_cr_no_newline)
  have step': "line_step (strip_cr l) = PushBack (strip_cr (strip_cr l))"
    by (simp add: l strip_cr_data line_step_data j trim_strip_cr)
  have again: "read_lines ((strip_cr l @ [10] @ rest) @ arriving) =
      (strip_cr (strip_cr l) @ [10] @ rest @ arriving, [], False)"
    using read_lines_line[OF nl, of "rest @ arriving"] step' by simp
  have "flush_line (strip_cr l) = []"
    by (simp add: l strip_cr_data flush_line_data j trim_strip_cr)
  moreover have "trim (strip_cr l @ [10] @ rest) \<noteq> []"
    using trim_data_nonempty[of "strip_cr j @ [10] @ rest"] by (simp add: l strip_cr_data)
  ultimately have fl: "flush (strip_cr l @ [10] @ rest) = concat (map flush_line (split 10 rest))"
    using split_first[OF nl, of rest] by (simp add: flush_def)
  show ?thesis
    using first again fl read_lines_fragment[OF assms(5)] by simp
qed


lemmas line_eval = flush_line_def try_block_def line_step_def strip_cr_def endsWith_def

theorem parse_failure_pushes_back_witness:
  \<open>read_lines (lit ''data: {"choi'' @ [10] @ lit ''data: {"choices":[{"delta":{"content":"X"}}]}'' @ [10])
     = (lit ''data: {"choi'' @ [10] @ lit ''data: {"choices":[{"delta":{"content":"X"}}]}'' @ [10], [], False)
   \<and> read_lines ((lit ''data: {"choi'' @ [10] @ lit ''data: {"choices":[{"delta":{"content":"X"}}]}'' @ [10]) @ lit ''ces'')
     = (lit ''data: {"choi'' @ [10] @ (lit ''data: {"choices":[{"delta":{"content":"X"}}]}'' @ [10]) @ lit ''ces'', [], False)
   \<and> flush (lit ''data: {"choi'' @ [10] @ lit ''data: {"choices":[{"delta":{"content":"X"}}]}'' @ [10])
     = [JStr [88]]
   \<and> read_lines (lit ''data: {"choi'') = (lit ''data: {"choi'', [], False)\<close>
proof -
  let ?l = \<open>lit ''data: {"choi''\<close>
  let ?rest = \<open>lit ''data: {"choices":[{"delta":{"content":"X"}}]}'' @ [10]\<close>
  have h1: "10 \<notin> set ?l" by (simp add: lit_def)
  have h2: "startsWith (lit ''data: '') ?l" by (simp add: lit_def startsWith_def)
  have h3: "trim (drop 6 ?l) \<noteq> lit ''[DONE]''" by (simp add: lit_def trim_def is_space_def)
  have h4: "try_block (trim (drop 6 ?l)) = Threw" by (simp add: try_block_def parse_eval)
  have s: "strip_cr ?l = ?l" by (simp add: strip_cr_def endsWith_def lit_def)
  have f: "concat (map flush_line (split 10 ?rest)) = [JStr [88]]"
    by (simp add: line_eval parse_eval)
  show ?thesis
    using parse_failure_pushes_back[OF h1 h2 h3 h4 h1, of ?rest \<open>lit ''ces''\<close>]
    by (simp only: s f)
qed

text \<open>
  Claim C9.  Whatever bytes the body delivers, when the reader ends normally \<open>streamChat\<close>
  throws nothing: it makes its \<open>onDelta\<close> calls and then calls \<open>onDone\<close> once.  A line
  whose JSON parses but whose \<open>choices[0].delta.content\<close> is missing (or cannot be read, or
  is falsy) passes nothing to \<open>onDelta\<close>, in the read loop and in the final flush alike; a
  trailing fragment on which the try block throws is dropped by the flush.
\<close>

theorem decoder_never_throws:
  assumes "ok resp" and "body resp = Some (chunks, Closed)"
    and "10 \<notin> set p" and "JSON_parse (trim p) = Some v"
    and "delta_content v = Inl e \<or> (\<exists>c. delta_content v = Inr c \<and> \<not> truthy c)"
    and "try_block (trim q) = Threw"
  shows "(\<exists>ds. streamChat (Resolved resp) = (map OnDelta ds @ [OnDone], None))
       \<and> fst (snd (read_lines (lit ''data: '' @ p @ [10]))) = []
       \<and> flush (lit ''data: '' @ p) = []
       \<and> flush_line (lit ''data: '' @ q) = []"
proof -
  obtain b ds where "read_loop Closed new_TextDecoder [] chunks = (b, ds, None)"
    using read_loop_closed by blast
  then have "streamChat (Resolved resp) = (map OnDelta (ds @ flush b) @ [OnDone], None)"
    using assms(1,2) by (simp add: streamChat_def)
  then have a: "\<exists>ds. streamChat (Resolved resp) = (map OnDelta ds @ [OnDone], None)"
    by blast
  have quiet: "try_block (trim p) = Quiet \<or> try_block (trim p) = Threw"
    using assms(4,5) by (auto simp: try_block_def split: option.splits)
  have nl: "10 \<notin> set (lit ''data: '' @ p)"
    using assms(3) by (simp add: lit_data)
  have "line_step (lit ''data: '' @ p) = Continue [] \<or>
        line_step (lit ''data: '' @ p) = Stop \<or>
        (\<exists>x. line_step (lit ''data: '' @ p) = PushBack x)"
    using quiet by (auto simp: line_step_data)
  then have b: "fst (snd (read_lines (lit ''data: '' @ p @ [10]))) = []"
    using read_lines_line[OF nl, of "[]"] by (auto simp: read_lines_fragment)
  have "flush_line (lit ''data: '' @ p) = []"
    using quiet by (auto simp: flush_line_data)
  then have c: "flush (lit ''data: '' @ p) = []"
    using split_fragment[OF nl] by (simp add: flush_def)
  have d: "flush_line (lit ''data: '' @ q) = []"
    using assms(6) by (simp add: flush_line_data)
  show ?thesis using a b c d by simp
qed

theorem decoder_never_throws_witness:
  \<open>(\<exists>ds. streamChat (Resolved \<lparr>status = 200, errorData = None,
          body = Some ([ascii ''data: {"choices":[{"delta":{}}]}'' @ [10], ascii ''data: {"cho''], Closed)\<rparr>)
        = (map OnDelta ds @ [OnDone], None))
   \<and> fst (snd (read_lines (lit ''data: '' @ lit ''{"choices":[{"delta":{}}]}'' @ [10]))) = []
   \<and> flush (lit ''data: '' @ lit ''{"choices":[{"delta":{}}]}'') = []
   \<and> flush_line (lit ''data: '' @ lit ''{"cho'') = []\<close>
proof -
  let ?p = \<open>lit ''{"choices":[{"delta":{}}]}''\<close>
  let ?v = "JObj [(lit ''choices'', JArr [JObj [(lit ''delta'', JObj [])]])]"
  have h1: \<open>ok \<lparr>status = 200, errorData = None,
          body = Some ([ascii ''data: {"choices":[{"delta":{}}]}'' @ [10], ascii ''data: {"cho''], Closed)\<rparr>\<close>
    by (simp add: ok_def)
  have h3: "10 \<notin> set ?p" by (simp add: lit_def)
  have h4: "JSON_parse (trim ?p) = Some ?v" by (simp add: parse_eval)
  have h5: "delta_content ?v = Inl TypeError \<or> (\<exists>c. delta_content ?v = Inr c \<and> \<not> truthy c)"
    by (simp add: parse_eval)
  have h6: \<open>try_block (trim (lit ''{"cho'')) = Threw\<close> by (simp add: try_block_def parse_eval)
  show ?thesis
    by (rule decoder_never_throws[OF h1 _ h3 h4 h5 h6]) simp
qed


lemmas decode_eval = ascii_def lit_def decode_byte_def lead_byte_def emit_def reset_def
  new_TextDecoder_def code_units_def Let_def

text \<open>
  Claim C3 fails on the code.  The read loop stops at the sentinel, but the flush after it
  is not guarded by \<open>streamDone\<close>: a data line that arrived in the same chunk as the
  sentinel is still in the buffer and the flush passes its content to \<open>onDelta\<close>.  The
  same bytes cut into two chunks behind the sentinel line pass nothing.
\<close>

theorem line_after_sentinel_is_delivered:
  \<open>streamChat (Resolved \<lparr>status = 200, errorData = None,
      body = Some ([ascii ''data: [DONE]'' @ [10] @
                    ascii ''data: {"choices":[{"delta":{"content":"X"}}]}'' @ [10]], Closed)\<rparr>)
     = ([OnDelta (JStr [88]), OnDone], None)
   \<and> streamChat (Resolved \<lparr>status = 200, errorData = None,
      body = Some ([ascii ''data: [DONE]'' @ [10],
                    ascii ''data: {"choices":[{"delta":{"content":"X"}}]}'' @ [10]], Closed)\<rparr>)
     = ([OnDone], None)\<close>
proof -
  let ?rest = \<open>lit ''data: {"choices":[{"delta":{"content":"X"}}]}'' @ [10]\<close>
  have one: \<open>decode new_TextDecoder (ascii ''data: [DONE]'' @ [10] @
                    ascii ''data: {"choices":[{"delta":{"content":"X"}}]}'' @ [10])
     = (lit ''data: [DONE]'' @ 10 # ?rest, new_TextDecoder\<lparr>bom_seen := True\<rparr>)\<close>
    by (simp add: decode_eval)
  have two: \<open>decode new_TextDecoder (ascii ''data: [DONE]'' @ [10])
     = (lit ''data: [DONE]'' @ 10 # [], new_TextDecoder\<lparr>bom_seen := True\<rparr>)\<close>
    by (simp add: decode_eval)
  have f: "flush ?rest = [JStr [88]]"
    by (simp add: flush_def line_eval parse_eval)
  have e: "flush [] = []"
    by (simp add: flush_def trim_def)
  have same_chunk: "streamChat (Resolved \<lparr>status = 200, errorData = None,
        body = Some ([c], Closed)\<rparr>) = (map OnDelta (flush r) @ [OnDone], None)"
    if "decode new_TextDecoder c = (lit ''data: [DONE]'' @ 10 # r, d)" for c r d
    using that by (simp add: streamChat_def ok_def read_lines_done_line)
  have next_chunk: "streamChat (Resolved \<lparr>status = 200, errorData = None,
        body = Some ([c, c'], Closed)\<rparr>) = (map OnDelta (flush r) @ [OnDone], None)"
    if "decode new_TextDecoder c = (lit ''data: [DONE]'' @ 10 # r, d)" for c c' r d
    using that by (simp add: streamChat_def ok_def read_lines_done_line)
  show ?thesis
    using same_chunk[OF one] next_chunk[OF two] by (simp only: f e list.map append.simps)
qed

section \<open>Properties of the transcript and the session\<close>

lemma toString_digits: "c \<in> set (toString n) \<Longrightarrow> 48 \<le> c \<and> c \<le> 57"
proof (induction n arbitrary: c rule: toString.induct)
  case (1 n)
  show ?case
  proof (cases "n < 10")
    case True
    with "1.prems" show ?thesis
      by (subst (asm) toString.simps) simp
  next
    case False
    from "1.prems" have "c \<in> set (toString (n div 10)) \<or> c = 48 + n mod 10"
      by (subst (asm) toString.simps) (auto simp: False)
    then show ?thesis
    proof
      assume "c \<in> set (toString (n div 10))"
      then show ?thesis using "1.IH"[OF False] by blast
    next
      assume "c = 48 + n mod 10"
      moreover have "n mod 10 < 10" by simp
      ultimately show ?thesis by linarith
    qed
  qed
qed

lemma lit_streaming: "lit ''streaming'' = [115, 116, 114, 101, 97, 109, 105, 110, 103]"
  by (simp add: lit_def)

lemma lit_welcome: "lit ''welcome'' = [119, 101, 108, 99, 111, 109, 101]"
  by (simp add: lit_def)

lemma toString_not_streaming: "toString n \<noteq> lit ''streaming''"
proof
  assume "toString n = lit ''streaming''"
  then have "115 \<in> set (toString n)" by (simp add: lit_streaming)
  then show False using toString_digits by fastforce
qed

lemma finalize_twice: "finalize later (finalize now msgs) = finalize now msgs"
  by (induction msgs) (auto simp: finalize_def toString_not_streaming)

lemma finalize_none:
  "\<forall>m \<in> set msgs. msg_id m \<noteq> lit ''streaming'' \<Longrightarrow> finalize now msgs = msgs"
  by (induction msgs) (auto simp: finalize_def)

lemma messages_saveMessage [simp]: "messages (saveMessage u r c k s) = messages s"
  by (simp add: saveMessage_def)

lemma messages_onDone: "messages (onDone cl now s) = finalize now (messages s)"
  by (simp add: onDone_def Let_def)

text \<open>
  Claim C7.  The completion handler replaces the id of every message with the id
  \<open>streaming\<close> by the decimal digits of the time, which never spell \<open>streaming\<close>.  Run a
  second time it finds nothing to replace: the transcript, its length and the ids already
  given stay as they are.  Without a streaming message the handler leaves the transcript
  unchanged.
\<close>

theorem finalize_idempotent:
  "finalize later (finalize now msgs) = finalize now msgs
   \<and> messages (onDone cl later (onDone cl now s)) = messages (onDone cl now s)
   \<and> length (finalize now msgs) = length msgs
   \<and> ((\<forall>m \<in> set (messages s). msg_id m \<noteq> lit ''streaming'') \<longrightarrow>
        messages (onDone cl now s) = messages s)"
  by (simp add: finalize_twice messages_onDone finalize_none) (simp add: finalize_def)

theorem finalize_idempotent_witness:
  "messages (onDone \<lparr>convId = None, assistantContent = [], sender = None\<rparr> 7 initial_session)
     = messages initial_session"
proof -
  have h: "\<forall>m \<in> set (messages initial_session). msg_id m \<noteq> lit ''streaming''"
    by (simp add: initial_session_def INITIAL_MESSAGE_def lit_streaming lit_welcome)
  from finalize_idempotent[of 7 7 "[]" "\<lparr>convId = None, assistantContent = [], sender = None\<rparr>" initial_session]
  have "(\<forall>m \<in> set (messages initial_session). msg_id m \<noteq> lit ''streaming'') \<longrightarrow>
        messages (onDone \<lparr>convId = None, assistantContent = [], sender = None\<rparr> 7 initial_session)
          = messages initial_session"
    by blast
  then show ?thesis
    using h by (rule mp)
qed

lemma streamChat_429:
  "status resp = 429 \<Longrightarrow> streamChat (Resolved resp) = ([], Some (Error rate_limit_message))"
  by (simp add: streamChat_def ok_def)

lemma create_failed_not_rate_limit:
  "lit ''Failed to create conversation'' \<noteq> rate_limit_message"
  by (simp add: rate_limit_message_def lit_def)

text \<open>
  Claim C5.  A send that is accepted and answered with HTTP 429 makes one request and shows
  the rate-limit message once; \<open>isLoading\<close> is cleared and no closure is left.  The
  transcript gains the user message only (or is the welcome message alone, when the send
  has just created the conversation): no assistant message is added.
\<close>

theorem rate_limited_send:
  fixes nts :: "rat \<Rightarrow> str" and input :: str and now later :: nat
    and inserted :: "(str \<times> nat) option" and resp :: response and s :: session
  assumes "trim input \<noteq> []" and "\<not> isLoading s" and "status resp = 429"
  defines "s' \<equiv> sendMessage nts input now inserted (Resolved resp) later s"
    and "userMessage \<equiv> \<lparr>msg_id = toString now, role = User, content = trim input\<rparr>"
    and "creating \<equiv> user s \<noteq> None \<and> \<not> given (activeConversationId s)"
  shows "isLoading s' = False \<and> stream s' = None
       \<and> toasts s' = toasts s
             @ (if creating \<and> inserted = None
                then [ToastError (lit ''Failed to create conversation'')] else [])
             @ [ToastError rate_limit_message]
       \<and> count_list (toasts s') (ToastError rate_limit_message)
             = Suc (count_list (toasts s) (ToastError rate_limit_message))
       \<and> requests s' = requests s @ [chatHistory (messages s @ [userMessage])]
       \<and> messages s' = (if creating \<and> inserted \<noteq> None then [INITIAL_MESSAGE]
                          else messages s @ [userMessage])
       \<and> filter (\<lambda>m. role m = Assistant) (messages s')
             = (if creating \<and> inserted \<noteq> None then [INITIAL_MESSAGE]
                else filter (\<lambda>m. role m = Assistant) (messages s))"
proof -
  have s': "s' = step (Throw (Message rate_limit_message)) (begin_send input now inserted s)"
    using assms(1,2,3) by (simp add: s'_def sendMessage_def streamChat_429 run_def)
  have ini: "role INITIAL_MESSAGE = Assistant"
    by (simp add: INITIAL_MESSAGE_def)
  show ?thesis
    unfolding s'
    using assms(1,2) create_failed_not_rate_limit ini
    by (cases inserted)
       (auto simp: begin_send_def Let_def createConversation_def saveMessage_def on_error_def
          userMessage_def creating_def split: prod.splits if_splits option.splits)
qed


theorem rate_limited_send_witness:
  "(let s' = sendMessage (\<lambda>q. []) (lit ''Hi'') 5 None
               (Resolved \<lparr>status = 429, errorData = None, body = None\<rparr>) 6 initial_session
    in isLoading s' = False
       \<and> toasts s' = [ToastError rate_limit_message]
       \<and> requests s' = [chatHistory [INITIAL_MESSAGE, \<lparr>msg_id = toString 5, role = User, content = lit ''Hi''\<rparr>]]
       \<and> messages s' = [INITIAL_MESSAGE, \<lparr>msg_id = toString 5, role = User, content = lit ''Hi''\<rparr>])"
proof -
  have t: "trim (lit ''Hi'') = lit ''Hi''"
    by (simp add: trim_def lit_def is_space_def)
  have h1: "trim (lit ''Hi'') \<noteq> []"
    by (simp add: t) (simp add: lit_def)
  have h2: "\<not> isLoading initial_session"
    by (simp add: initial_session_def)
  have h3: "status \<lparr>status = 429, errorData = None, body = None\<rparr> = 429"
    by simp
  show ?thesis
    using rate_limited_send[OF h1 h2 h3, of "\<lambda>q. []" 5 None 6]
    by (simp add: t initial_session_def Let_def)
qed

lemma map_enumerate_other:
  "n < k \<or> k + length xs \<le> n \<Longrightarrow>
   map (\<lambda>(i, m). if i = n then f m else m) (enumerate k xs) = xs"
  by (induction xs arbitrary: k) auto

lemma map_enumerate_last:
  "map (\<lambda>(i, m). if i = k + length xs then f m else m) (enumerate k (xs @ [x])) = xs @ [f x]"
  by (simp add: enumerate_append_eq map_enumerate_other)

lemma apply_delta_placeholder:
  "apply_delta acc (xs @ [\<lparr>msg_id = lit ''streaming'', role = Assistant, content = c\<rparr>]) =
     xs @ [\<lparr>msg_id = lit ''streaming'', role = Assistant, content = acc\<rparr>]"
  using map_enumerate_last[of 0 xs "\<lambda>m. m\<lparr>content := acc\<rparr>"]
  by (simp add: apply_delta_def)

lemma apply_delta_new:
  "prev = [] \<or> role (last prev) \<noteq> Assistant \<or> msg_id (last prev) \<noteq> lit ''streaming'' \<Longrightarrow>
   apply_delta acc prev = prev @ [\<lparr>msg_id = lit ''streaming'', role = Assistant, content = acc\<rparr>]"
  by (auto simp: apply_delta_def)

lemma apply_delta_last:
  assumes "prev \<noteq> []" "role (last prev) = Assistant" "msg_id (last prev) = lit ''streaming''"
  shows "apply_delta acc prev = butlast prev @ [(last prev)\<lparr>content := acc\<rparr>]"
proof -
  obtain xs x where prev: "prev = xs @ [x]"
    using assms(1) by (metis append_butlast_last_id)
  show ?thesis
    using assms map_enumerate_last[of 0 xs "\<lambda>m. m\<lparr>content := acc\<rparr>" x]
    by (simp add: prev apply_delta_def)
qed

lemma welcome_not_streaming: "msg_id INITIAL_MESSAGE \<noteq> lit ''streaming''"
  by (simp add: INITIAL_MESSAGE_def lit_welcome lit_streaming)

lemma apply_delta_keeps_head:
  assumes "prev = INITIAL_MESSAGE # rest"
  shows "\<exists>rest'. apply_delta acc prev = INITIAL_MESSAGE # rest'"
proof (cases "role (last prev) = Assistant \<and> msg_id (last prev) = lit ''streaming''")
  case True
  with assms welcome_not_streaming have "rest \<noteq> []"
    by auto
  then have "butlast prev = INITIAL_MESSAGE # butlast rest"
    by (simp add: assms)
  then show ?thesis
    using True apply_delta_last[of prev acc] assms by simp
next
  case False
  then show ?thesis
    using assms by (auto simp: apply_delta_new)
qed

lemma finalize_keeps_head:
  "prev = INITIAL_MESSAGE # rest \<Longrightarrow> \<exists>rest'. finalize now prev = INITIAL_MESSAGE # rest'"
  by (auto simp: finalize_def welcome_not_streaming)

lemma step_keeps_head:
  assumes "\<exists>rest. messages s = INITIAL_MESSAGE # rest"
  shows "\<exists>rest. messages (step ev s) = INITIAL_MESSAGE # rest"
proof (cases ev)
  case (Send input now inserted)
  then show ?thesis
    using assms
    by (auto simp: begin_send_def Let_def createConversation_def saveMessage_def
             split: prod.splits option.splits if_splits)
next
  case (Delta chunk)
  then show ?thesis
    using assms apply_delta_keeps_head
    by (auto simp: updateAssistant_def Let_def split: option.splits)
next
  case (Done now)
  then show ?thesis
    using assms finalize_keeps_head by (auto simp: messages_onDone split: option.splits)
next
  case (Throw msg)
  then show ?thesis
    using assms by (auto simp: on_error_def split: option.splits)
next
  case (Select c)
  then show ?thesis using assms by (simp add: selectConversation_def)
next
  case (LoadMessages rows)
  then show ?thesis using assms by (auto simp: load_messages_def split: option.splits)
next
  case NewChat
  then show ?thesis by (simp add: startNewChat_def)
next
  case (Delete c failed)
  then show ?thesis using assms by (auto simp: deleteConversation_def Let_def)
next
  case (ClearAll failed)
  then show ?thesis using assms by (auto simp: clearAllHistory_def)
next
  case (AuthChange u listed)
  then show ?thesis using assms by (auto simp: auth_change_def Let_def split: option.splits)
qed

lemma run_snoc: "run (evs @ [ev]) s = step ev (run evs s)"
  by (simp add: run_def)

lemma run_keeps_head: "\<exists>rest. messages (run evs initial_session) = INITIAL_MESSAGE # rest"
proof (induction evs rule: rev_induct)
  case Nil
  show ?case by (simp add: run_def initial_session_def)
next
  case (snoc ev evs)
  then show ?case by (simp only: run_snoc step_keeps_head)
qed

lemma saved_step_independent:
  "saved (step ev (s\<lparr>messages := ms\<rparr>)) = saved (step ev s)"
proof (cases ev)
  case (Send input now inserted)
  then show ?thesis
    by (auto simp: begin_send_def Let_def createConversation_def saveMessage_def
             split: prod.splits option.splits if_splits)
next
  case (Delta chunk)
  then show ?thesis by (auto simp: updateAssistant_def Let_def split: option.splits)
next
  case (Done now)
  then show ?thesis by (auto simp: onDone_def Let_def saveMessage_def split: option.splits)
next
  case (Throw msg)
  then show ?thesis by (auto simp: on_error_def split: option.splits)
next
  case (Select c)
  then show ?thesis by (simp add: selectConversation_def)
next
  case (LoadMessages rows)
  then show ?thesis by (auto simp: load_messages_def split: option.splits)
next
  case NewChat
  then show ?thesis by (simp add: startNewChat_def)
next
  case (Delete c failed)
  then show ?thesis by (auto simp: deleteConversation_def Let_def)
next
  case (ClearAll failed)
  then show ?thesis by (auto simp: clearAllHistory_def)
next
  case (AuthChange u listed)
  then show ?thesis by (auto simp: auth_change_def Let_def split: option.splits)
qed

lemma requests_begin_send:
  assumes "trim input \<noteq> []" "\<not> isLoading s"
  shows "requests (begin_send input now inserted s) =
         requests s @ [chatHistory (messages s @ [\<lparr>msg_id = toString now, role = User, content = trim input\<rparr>])]"
  using assms
  by (auto simp: begin_send_def Let_def createConversation_def saveMessage_def
           split: prod.splits option.splits if_splits)


lemma requests_step_other:
  "(\<forall>input now inserted. ev \<noteq> Send input now inserted) \<Longrightarrow> requests (step ev s) = requests s"
  by (cases ev)
     (auto simp: updateAssistant_def onDone_def on_error_def Let_def saveMessage_def
        selectConversation_def load_messages_def startNewChat_def deleteConversation_def
        clearAllHistory_def auth_change_def split: option.splits)

lemma requests_step_head:
  assumes "\<exists>rest. messages s = INITIAL_MESSAGE # rest"
    and "\<forall>h \<in> set (requests s). \<exists>rest. h = (Assistant, content INITIAL_MESSAGE) # rest"
  shows "\<forall>h \<in> set (requests (step ev s)). \<exists>rest. h = (Assistant, content INITIAL_MESSAGE) # rest"
proof (cases "\<exists>input now inserted. ev = Send input now inserted")
  case False
  then show ?thesis using assms(2) by (simp add: requests_step_other)
next
  case True
  then obtain input now inserted where ev: "ev = Send input now inserted" by blast
  have ini: "role INITIAL_MESSAGE = Assistant" by (simp add: INITIAL_MESSAGE_def)
  show ?thesis
  proof (cases "trim input = [] \<or> isLoading s")
    case True
    then show ?thesis using assms(2) by (auto simp: ev begin_send_def)
  next
    case False
    then show ?thesis
      using assms requests_begin_send[of input s now inserted] ini
      by (auto simp: ev chatHistory_def)
  qed
qed

lemma run_requests_head:
  "\<forall>h \<in> set (requests (run evs initial_session)). \<exists>rest. h = (Assistant, content INITIAL_MESSAGE) # rest"
proof (induction evs rule: rev_induct)
  case Nil
  show ?case by (simp add: run_def initial_session_def)
next
  case (snoc ev evs)
  show ?case
    unfolding run_snoc
    by (rule requests_step_head[OF run_keeps_head snoc])
qed

lemma saved_step_cases:
  "saved (step ev s) = saved s
   \<or> (\<exists>input now inserted k. ev = Send input now inserted
          \<and> saved (step ev s) = saved s @ [(User, trim input, k)])
   \<or> (\<exists>now cl k. ev = Done now \<and> stream s = Some cl \<and> assistantContent cl \<noteq> []
          \<and> saved (step ev s) = saved s @ [(Assistant, assistantContent cl, k)])"
  by (cases ev)
     (auto simp: begin_send_def Let_def createConversation_def saveMessage_def
        updateAssistant_def onDone_def on_error_def selectConversation_def load_messages_def
        startNewChat_def deleteConversation_def clearAllHistory_def auth_change_def
        split: prod.splits option.splits if_splits)

lemma stream_step_cases:
  "stream (step ev s) = stream s
   \<or> stream (step ev s) = None
   \<or> (\<exists>cl. stream (step ev s) = Some cl \<and> assistantContent cl = [])
   \<or> (\<exists>cl chunk. ev = Delta chunk \<and> stream s = Some cl
          \<and> stream (step ev s) = Some (cl\<lparr>assistantContent := assistantContent cl @ chunk\<rparr>))"
  by (cases ev)
     (auto simp: begin_send_def Let_def createConversation_def saveMessage_def
        updateAssistant_def onDone_def on_error_def selectConversation_def load_messages_def
        startNewChat_def deleteConversation_def clearAllHistory_def auth_change_def
        split: prod.splits option.splits if_splits)

text \<open>
  Where the rows that \<open>saveMessage\<close> has inserted come from: a user row holds the trimmed
  input of a send among the events, an assistant row the deltas of the stream, in their
  order.  The content the closure of the send in flight has accumulated is made of
  deltas among the events as well.
\<close>

lemma run_saved_origin:
  "(\<forall>(r, c, k) \<in> set (saved (run evs initial_session)).
      (r = User \<and> (\<exists>input now inserted. Send input now inserted \<in> set evs \<and> c = trim input))
    \<or> (r = Assistant \<and> c \<noteq> []
         \<and> (\<exists>chunks. subseq (map Delta chunks) evs \<and> c = concat chunks)))"
proof -
  define origin where "origin evs row =
     (case row of (r, c, k) \<Rightarrow>
        (r = User \<and> (\<exists>input now inserted. Send input now inserted \<in> set evs \<and> c = trim input))
      \<or> (r = Assistant \<and> c \<noteq> []
           \<and> (\<exists>chunks. subseq (map Delta chunks) evs \<and> c = concat chunks)))"
    for evs :: "event list" and row :: "role \<times> str \<times> str"
  have mono: "origin (evs @ [ev]) row" if "origin evs row" for evs ev row
    using that unfolding origin_def
    by (auto split: prod.splits intro: list_emb_prefix)
  have "(\<forall>row \<in> set (saved (run evs initial_session)). origin evs row)
      \<and> (\<forall>cl. stream (run evs initial_session) = Some cl \<longrightarrow>
            (\<exists>chunks. subseq (map Delta chunks) evs \<and> assistantContent cl = concat chunks))"
  proof (induction evs rule: rev_induct)
    case Nil
    show ?case by (simp add: run_def initial_session_def)
  next
    case (snoc ev evs)
    let ?s = "run evs initial_session"
    have rows: "\<forall>row \<in> set (saved ?s). origin (evs @ [ev]) row"
      using snoc mono by blast
    have str: "\<exists>chunks. subseq (map Delta chunks) evs \<and> assistantContent cl = concat chunks"
      if "stream ?s = Some cl" for cl
      using snoc that by blast
    have a: "\<forall>row \<in> set (saved (step ev ?s)). origin (evs @ [ev]) row"
    proof -
      consider (same) "saved (step ev ?s) = saved ?s"
        | (send) input now inserted k where "ev = Send input now inserted"
            "saved (step ev ?s) = saved ?s @ [(User, trim input, k)]"
        | (finished) now cl k where "ev = Done now" "stream ?s = Some cl"
            "assistantContent cl \<noteq> []"
            "saved (step ev ?s) = saved ?s @ [(Assistant, assistantContent cl, k)]"
        using saved_step_cases[of ev ?s] by blast
      then show ?thesis
      proof cases
        case same
        then show ?thesis using rows by simp
      next
        case send
        have "origin (evs @ [ev]) (User, trim input, k)"
          unfolding origin_def using send(1) by auto
        then show ?thesis using rows send(2) by simp
      next
        case finished
        obtain chunks where "subseq (map Delta chunks) evs" "assistantContent cl = concat chunks"
          using str[OF finished(2)] by blast
        then have "origin (evs @ [ev]) (Assistant, assistantContent cl, k)"
          unfolding origin_def using finished(3) by (auto intro: list_emb_prefix)
        then show ?thesis using rows finished(4) by simp
      qed
    qed
    have b: "\<exists>chunks. subseq (map Delta chunks) (evs @ [ev]) \<and> assistantContent cl = concat chunks"
      if new: "stream (step ev ?s) = Some cl" for cl
    proof -
      consider (same) "stream (step ev ?s) = stream ?s"
        | (fresh) "assistantContent cl = []"
        | (delta) cl0 chunk where "ev = Delta chunk" "stream ?s = Some cl0"
            "cl = cl0\<lparr>assistantContent := assistantContent cl0 @ chunk\<rparr>"
        using stream_step_cases[of ev ?s] new by auto
      then show ?thesis
      proof cases
        case same
        then obtain chunks where "subseq (map Delta chunks) evs"
            "assistantContent cl = concat chunks"
          using str[of cl] new by auto
        then show ?thesis by (auto intro: list_emb_prefix)
      next
        case fresh
        then have "subseq (map Delta []) (evs @ [ev]) \<and> assistantContent cl = concat []"
          by simp
        then show ?thesis by blast
      next
        case delta
        obtain chunks where c: "subseq (map Delta chunks) evs"
            "assistantContent cl0 = concat chunks"
          using str[OF delta(2)] by blast
        have "subseq (map Delta (chunks @ [chunk])) (evs @ [ev])"
          using c(1) delta(1) by (simp add: list_emb_append_mono)
        moreover have "assistantContent cl = concat (chunks @ [chunk])"
          using c(2) delta(3) by simp
        ultimately show ?thesis by blast
      qed
    qed
    show ?case
      unfolding run_snoc using a b by blast
  qed
  then show ?thesis
    unfolding origin_def by blast
qed

text \<open>
  Claim C10.  In every state the session can reach, the transcript starts with the welcome
  message: in the fresh session and after every event, among them the load of a
  conversation, a delete, a clear-all and a new chat.  The welcome message is never
  persisted: what \<open>saveMessage\<close> inserts does not depend on the transcript, where the
  welcome message lives, and every row it has inserted is either a user row with the
  trimmed input of a send or an assistant row whose content is not empty and is made of
  the deltas of the stream, in their order.  Every message list posted to the chat function
  starts with the welcome message.
\<close>

theorem welcome_message_first:
  "messages initial_session = [INITIAL_MESSAGE]
   \<and> (\<exists>rest. messages (run evs initial_session) = INITIAL_MESSAGE # rest)
   \<and> saved (step ev (s\<lparr>messages := ms\<rparr>)) = saved (step ev s)
   \<and> saved initial_session = []
   \<and> (\<forall>(r, c, k) \<in> set (saved (run evs initial_session)).
         (r = User
            \<and> (\<exists>input now inserted. Send input now inserted \<in> set evs \<and> c = trim input))
       \<or> (r = Assistant \<and> c \<noteq> []
            \<and> (\<exists>chunks. subseq (map Delta chunks) evs \<and> c = concat chunks)))
   \<and> (\<forall>h \<in> set (requests (run evs initial_session)).
         \<exists>rest. h = (Assistant, content INITIAL_MESSAGE) # rest)"
proof -
  have a: "messages initial_session = [INITIAL_MESSAGE]" "saved initial_session = []"
    by (simp_all add: initial_session_def)
  show ?thesis
    by (intro conjI a run_keeps_head saved_step_independent run_saved_origin run_requests_head)
qed

lemmas session_eval = run_def begin_send_def createConversation_def saveMessage_def
  updateAssistant_def apply_delta_def onDone_def finalize_def on_error_def load_messages_def
  selectConversation_def startNewChat_def auth_change_def given_def chatHistory_def
  initial_session_def Let_def

theorem welcome_message_first_witness:
  "requests (run [AuthChange (Some (lit ''u'')) (Some []), Select (lit ''A''),
                  Send (lit ''Hi'') 5 None, Delta (lit ''a''), Delta (lit ''b''), Done 6]
               initial_session)
     = [[(Assistant, content INITIAL_MESSAGE), (User, lit ''Hi'')]]
   \<and> (\<exists>rest. hd (requests (run [AuthChange (Some (lit ''u'')) (Some []), Select (lit ''A''),
                  Send (lit ''Hi'') 5 None, Delta (lit ''a''), Delta (lit ''b''), Done 6]
               initial_session))
         = (Assistant, content INITIAL_MESSAGE) # rest)
   \<and> saved (run [AuthChange (Some (lit ''u'')) (Some []), Select (lit ''A''),
                  Send (lit ''Hi'') 5 None, Delta (lit ''a''), Delta (lit ''b''), Done 6]
               initial_session)
     = [(User, lit ''Hi'', lit ''A''), (Assistant, lit ''ab'', lit ''A'')]
   \<and> (\<exists>chunks. subseq (map Delta chunks)
                  [AuthChange (Some (lit ''u'')) (Some []), Select (lit ''A''),
                   Send (lit ''Hi'') 5 None, Delta (lit ''a''), Delta (lit ''b''), Done 6]
          \<and> lit ''ab'' = concat chunks)"
proof -
  let ?E = "[AuthChange (Some (lit ''u'')) (Some []), Select (lit ''A''),
             Send (lit ''Hi'') 5 None, Delta (lit ''a''), Delta (lit ''b''), Done 6]"
  have t: "trim (lit ''Hi'') = lit ''Hi''"
    by (simp add: trim_def lit_def is_space_def)
  have n: "lit ''Hi'' \<noteq> []" "lit ''A'' \<noteq> []" "lit ''a'' \<noteq> []" "lit ''u'' \<noteq> []"
      "lit ''ab'' \<noteq> []" "lit ''a'' @ lit ''b'' = lit ''ab''"
    by (simp_all add: lit_def)
  have a: "requests (run ?E initial_session)
     = [[(Assistant, content INITIAL_MESSAGE), (User, lit ''Hi'')]]"
    by (simp add: session_eval t n) (simp add: INITIAL_MESSAGE_def)
  have sv: "saved (run ?E initial_session)
     = [(User, lit ''Hi'', lit ''A''), (Assistant, lit ''ab'', lit ''A'')]"
    by (simp add: session_eval t n)
  have mem: "hd (requests (run ?E initial_session)) \<in> set (requests (run ?E initial_session))"
    by (simp add: a)
  have row: "(Assistant, lit ''ab'', lit ''A'') \<in> set (saved (run ?E initial_session))"
    by (simp add: sv)
  note inst = welcome_message_first[where evs = ?E]
  have b: "\<forall>h \<in> set (requests (run ?E initial_session)).
         \<exists>rest. h = (Assistant, content INITIAL_MESSAGE) # rest"
    by (rule inst[THEN conjunct2, THEN conjunct2, THEN conjunct2, THEN conjunct2,
                  THEN conjunct2])
  have c: "\<forall>(r, c, k) \<in> set (saved (run ?E initial_session)).
         (r = User \<and> (\<exists>input now inserted. Send input now inserted \<in> set ?E \<and> c = trim input))
       \<or> (r = Assistant \<and> c \<noteq> []
            \<and> (\<exists>chunks. subseq (map Delta chunks) ?E \<and> c = concat chunks))"
    by (rule inst[THEN conjunct2, THEN conjunct2, THEN conjunct2, THEN conjunct2,
                  THEN conjunct1])
  have d: "\<exists>chunks. subseq (map Delta chunks) ?E \<and> lit ''ab'' = concat chunks"
    using bspec[OF c row] by simp
  show ?thesis
    by (intro conjI a bspec[OF b mem] sv d)
qed

lemma run_Cons: "run (ev # evs) s = run evs (step ev s)"
  by (simp add: run_def)

lemma run_Nil: "run [] s = s"
  by (simp add: run_def)

lemma step_delta_placeholder:
  assumes "stream s = Some cl"
    and "messages s = xs @ [\<lparr>msg_id = lit ''streaming'', role = Assistant, content = c\<rparr>]"
  shows "stream (step (Delta d) s) = Some (cl\<lparr>assistantContent := assistantContent cl @ d\<rparr>)
       \<and> messages (step (Delta d) s) =
           xs @ [\<lparr>msg_id = lit ''streaming'', role = Assistant, content = assistantContent cl @ d\<rparr>]"
  using assms by (simp add: updateAssistant_def Let_def apply_delta_placeholder)

lemma step_delta_new:
  assumes "stream s = Some cl"
    and "messages s = [] \<or> role (last (messages s)) \<noteq> Assistant
         \<or> msg_id (last (messages s)) \<noteq> lit ''streaming''"
  shows "stream (step (Delta d) s) = Some (cl\<lparr>assistantContent := assistantContent cl @ d\<rparr>)
       \<and> messages (step (Delta d) s) =
           messages s @ [\<lparr>msg_id = lit ''streaming'', role = Assistant, content = assistantContent cl @ d\<rparr>]"
  using assms by (simp add: updateAssistant_def Let_def apply_delta_new)

lemma run_deltas_placeholder:
  assumes "stream s = Some cl"
    and "messages s = xs @ [\<lparr>msg_id = lit ''streaming'', role = Assistant, content = assistantContent cl\<rparr>]"
  shows "messages (run (map Delta chunks) s) =
           xs @ [\<lparr>msg_id = lit ''streaming'', role = Assistant,
                  content = assistantContent cl @ concat chunks\<rparr>]"
  using assms
proof (induction chunks arbitrary: s cl)
  case Nil
  then show ?case by (simp add: run_Nil)
next
  case (Cons d chunks)
  from step_delta_placeholder[OF Cons.prems, of d]
  have "messages (run (map Delta chunks) (step (Delta d) s)) =
      xs @ [\<lparr>msg_id = lit ''streaming'', role = Assistant,
             content = assistantContent (cl\<lparr>assistantContent := assistantContent cl @ d\<rparr>) @ concat chunks\<rparr>]"
    by (intro Cons.IH) simp_all
  then show ?case by (simp add: run_Cons)
qed

lemma run_deltas_new:
  assumes "stream s = Some cl"
    and "messages s = [] \<or> role (last (messages s)) \<noteq> Assistant
         \<or> msg_id (last (messages s)) \<noteq> lit ''streaming''"
    and "chunks \<noteq> []"
  shows "messages (run (map Delta chunks) s) =
           messages s @ [\<lparr>msg_id = lit ''streaming'', role = Assistant,
                          content = assistantContent cl @ concat chunks\<rparr>]"
proof -
  obtain d ds where chunks: "chunks = d # ds"
    using assms(3) by (cases chunks) auto
  from step_delta_new[OF assms(1,2), of d]
  have "messages (run (map Delta ds) (step (Delta d) s)) =
      messages s @ [\<lparr>msg_id = lit ''streaming'', role = Assistant,
             content = assistantContent (cl\<lparr>assistantContent := assistantContent cl @ d\<rparr>) @ concat ds\<rparr>]"
    by (intro run_deltas_placeholder) simp_all
  then show ?thesis by (simp add: chunks run_Cons)
qed

text \<open>
  Claim C2, as the code has it.  Nothing cancels a stream: after the switch to another
  conversation, the deltas of the abandoned stream are applied to the transcript now shown.
  The messages loaded for the new conversation stay in place and unchanged; behind them the
  deltas put one assistant message with the id \<open>streaming\<close>, which holds the whole reply
  received so far, the part from before the switch included.
\<close>

theorem abandoned_stream_after_switch:
  assumes "user s \<noteq> None" and "given (activeConversationId s)"
    and "stream s = Some cl"
    and "\<forall>m \<in> set rows. msg_id m \<noteq> lit ''streaming''"
    and "chunks \<noteq> []"
  shows "messages (step (LoadMessages (Some rows)) s) = INITIAL_MESSAGE # rows
       \<and> messages (run (map Delta chunks) (step (LoadMessages (Some rows)) s)) =
           INITIAL_MESSAGE # rows @
             [\<lparr>msg_id = lit ''streaming'', role = Assistant,
               content = assistantContent cl @ concat chunks\<rparr>]"
proof -
  let ?s = "load_messages (Some rows) s"
  have m: "messages ?s = INITIAL_MESSAGE # rows"
    using assms(1,2) by (simp add: load_messages_def)
  have st: "stream ?s = Some cl"
    using assms(3) by (simp add: load_messages_def)
  have "msg_id (last (INITIAL_MESSAGE # rows)) \<noteq> lit ''streaming''"
    using assms(4) welcome_not_streaming by (cases rows rule: rev_cases) auto
  then have "msg_id (last (messages ?s)) \<noteq> lit ''streaming''"
    by (simp add: m)
  then have "messages (run (map Delta chunks) ?s) =
           messages ?s @ [\<lparr>msg_id = lit ''streaming'', role = Assistant,
                          content = assistantContent cl @ concat chunks\<rparr>]"
    by (intro run_deltas_new[OF st _ assms(5)]) blast
  then show ?thesis
    by (simp add: m)
qed


lemma initial_fields:
  "role INITIAL_MESSAGE = Assistant" "msg_id INITIAL_MESSAGE = lit ''welcome''"
  by (simp_all add: INITIAL_MESSAGE_def)

theorem abandoned_stream_after_switch_witness:
  "messages (run (map Delta [lit ''c''])
     (step (LoadMessages (Some [\<lparr>msg_id = lit ''m1'', role = User, content = lit ''old''\<rparr>]))
        (initial_session\<lparr>user := Some (lit ''u''), isLoading := True,
           activeConversationId := Some (lit ''B''),
           stream := Some \<lparr>convId = Some (lit ''A''), assistantContent = lit ''ab'',
                            sender = Some (lit ''u'')\<rparr>\<rparr>)))
   = [INITIAL_MESSAGE, \<lparr>msg_id = lit ''m1'', role = User, content = lit ''old''\<rparr>,
      \<lparr>msg_id = lit ''streaming'', role = Assistant, content = lit ''abc''\<rparr>]"
proof -
  let ?s = "initial_session\<lparr>user := Some (lit ''u''), isLoading := True,
           activeConversationId := Some (lit ''B''),
           stream := Some \<lparr>convId = Some (lit ''A''), assistantContent = lit ''ab'',
                            sender = Some (lit ''u'')\<rparr>\<rparr>"
  let ?cl = "\<lparr>convId = Some (lit ''A''), assistantContent = lit ''ab'', sender = Some (lit ''u'')\<rparr>"
  have h1: "user ?s \<noteq> None" by simp
  have h2: "given (activeConversationId ?s)" by (simp add: given_def lit_def)
  have h3: "stream ?s = Some ?cl" by simp
  have h4: "\<forall>m \<in> set [\<lparr>msg_id = lit ''m1'', role = User, content = lit ''old''\<rparr>].
              msg_id m \<noteq> lit ''streaming''"
    by (simp add: lit_def)
  have h5: "[lit ''c''] \<noteq> []" by simp
  have abc: "lit ''ab'' @ lit ''c'' = lit ''abc''" by (simp add: lit_def)
  show ?thesis
    using abandoned_stream_after_switch[OF h1 h2 h3 h4 h5] abc by simp
qed

text \<open>
  Claim C2 fails on the code: after two of the deltas, a switch to another conversation and
  the load of its messages, the next delta of the abandoned stream changes the transcript.
\<close>

theorem delta_after_switch_changes_transcript:
  "messages (run [AuthChange (Some (lit ''u'')) (Some []), Select (lit ''A''),
                  LoadMessages (Some []), Send (lit ''Hi'') 5 None,
                  Delta (lit ''a''), Delta (lit ''b''), Select (lit ''B''),
                  LoadMessages (Some [\<lparr>msg_id = lit ''m1'', role = User, content = lit ''old''\<rparr>])]
             initial_session)
     = [INITIAL_MESSAGE, \<lparr>msg_id = lit ''m1'', role = User, content = lit ''old''\<rparr>]
   \<and> messages (run [AuthChange (Some (lit ''u'')) (Some []), Select (lit ''A''),
                  LoadMessages (Some []), Send (lit ''Hi'') 5 None,
                  Delta (lit ''a''), Delta (lit ''b''), Select (lit ''B''),
                  LoadMessages (Some [\<lparr>msg_id = lit ''m1'', role = User, content = lit ''old''\<rparr>]),
                  Delta (lit ''c'')]
             initial_session)
     = [INITIAL_MESSAGE, \<lparr>msg_id = lit ''m1'', role = User, content = lit ''old''\<rparr>,
        \<lparr>msg_id = lit ''streaming'', role = Assistant, content = lit ''abc''\<rparr>]
   \<and> messages (run [AuthChange (Some (lit ''u'')) (Some []), Select (lit ''A''),
                  LoadMessages (Some []), Send (lit ''Hi'') 5 None,
                  Delta (lit ''a''), Delta (lit ''b''), Select (lit ''B''),
                  LoadMessages (Some [\<lparr>msg_id = lit ''m1'', role = User, content = lit ''old''\<rparr>]),
                  Delta (lit ''c'')]
             initial_session)
     \<noteq> messages (run [AuthChange (Some (lit ''u'')) (Some []), Select (lit ''A''),
                  LoadMessages (Some []), Send (lit ''Hi'') 5 None,
                  Delta (lit ''a''), Delta (lit ''b''), Select (lit ''B''),
                  LoadMessages (Some [\<lparr>msg_id = lit ''m1'', role = User, content = lit ''old''\<rparr>])]
             initial_session)"
proof -
  have t: "trim (lit ''Hi'') = lit ''Hi''"
    by (simp add: trim_def lit_def is_space_def)
  have n: "lit ''Hi'' \<noteq> []" "lit ''A'' \<noteq> []" "lit ''B'' \<noteq> []"
      "lit ''a'' @ lit ''b'' @ lit ''c'' = lit ''abc''"
    by (simp_all add: lit_def)
  show ?thesis
    by (simp add: session_eval t n initial_fields toString_not_streaming enumerate_eq_zip)
qed

lemma try_block_truthy: "try_block p = Passed c \<Longrightarrow> truthy (Some c) \<and> \<not> unprintable c"
  by (auto simp: try_block_def split: option.splits sum.splits if_splits)

lemma line_step_truthy: "line_step l = Continue ds \<Longrightarrow> \<forall>c \<in> set ds. (truthy (Some c) \<and> \<not> unprintable c)"
  by (auto simp: line_step_def Let_def try_block_truthy split: if_splits attempt.splits)

lemma read_lines_truthy: "\<forall>c \<in> set (fst (snd (read_lines X))). (truthy (Some c) \<and> \<not> unprintable c)"
proof (induction X rule: length_induct)
  case (1 X)
  show ?case
  proof (cases "10 \<in> set X")
    case False
    then show ?thesis by (simp add: read_lines_fragment)
  next
    case True
    then obtain l r where X: "X = l @ 10 # r" and l: "10 \<notin> set l"
      by (auto dest: split_list_first)
    have "length r < length X"
      by (simp add: X)
    then have IH: "\<forall>c \<in> set (fst (snd (read_lines r))). (truthy (Some c) \<and> \<not> unprintable c)"
      using 1 by blast
    show ?thesis
      using IH line_step_truthy[of l]
      by (auto simp: X read_lines_line[OF l] split: outcome.splits prod.splits)
  qed
qed

lemma flush_line_truthy: "\<forall>c \<in> set (flush_line raw). (truthy (Some c) \<and> \<not> unprintable c)"
  by (auto simp: flush_line_def Let_def try_block_truthy split: attempt.splits)

lemma flush_truthy: "\<forall>c \<in> set (flush b). (truthy (Some c) \<and> \<not> unprintable c)"
  using flush_line_truthy by (auto simp: flush_def)

lemma read_loop_truthy:
  "\<forall>c \<in> set (fst (snd (read_loop fin d buf chunks))). (truthy (Some c) \<and> \<not> unprintable c)"
proof (induction chunks arbitrary: d buf)
  case Nil
  show ?case by simp
next
  case (Cons v chunks)
  obtain t d1 where dec: "decode d v = (t, d1)" by (cases "decode d v")
  obtain b e fl where rl: "read_lines (buf @ t) = (b, e, fl)" by (cases "read_lines (buf @ t)")
  have e: "\<forall>c \<in> set e. (truthy (Some c) \<and> \<not> unprintable c)"
    using read_lines_truthy[of "buf @ t"] rl by simp
  show ?case
    using Cons.IH[of d1 b] e by (auto simp: dec rl split: prod.splits)
qed

lemma streamChat_truthy:
  assumes c: "OnDelta c \<in> set (fst (streamChat r))"
  shows "truthy (Some c) \<and> \<not> unprintable c"
proof (cases r)
  case (Rejected e)
  then show ?thesis using c by (simp add: streamChat_def)
next
  case (Resolved resp)
  show ?thesis
  proof (cases "ok resp \<and> body resp \<noteq> None")
    case False
    with c Resolved show ?thesis
      by (auto simp: streamChat_def Let_def split: if_splits option.splits)
  next
    case True
    then obtain chunks fin where body: "body resp = Some (chunks, fin)" by auto
    obtain b ds err where loop: "read_loop fin new_TextDecoder [] chunks = (b, ds, err)"
      by (cases "read_loop fin new_TextDecoder [] chunks")
    have ds: "\<forall>c \<in> set ds. (truthy (Some c) \<and> \<not> unprintable c)"
      using read_loop_truthy[of fin new_TextDecoder "[]" chunks] loop by simp
    show ?thesis
      using c Resolved True body loop ds flush_truthy[of b]
      by (cases err) (auto simp: streamChat_def)
  qed
qed

lemma streamChat_one_line:
  assumes "decode new_TextDecoder c = (lit ''data: '' @ j @ [10], d)"
    and "10 \<notin> set j" and "trim j \<noteq> lit ''[DONE]''" and "try_block (trim j) = Passed x"
  shows "streamChat (Resolved \<lparr>status = 200, errorData = None, body = Some ([c], Closed)\<rparr>)
         = ([OnDelta x, OnDone], None)"
proof -
  have nl: "10 \<notin> set (lit ''data: '' @ j)"
    using assms(2) by (simp add: lit_data)
  have "read_lines ((lit ''data: '' @ j) @ 10 # []) = ([], [x], False)"
    using read_lines_line[OF nl, of "[]"] assms(3,4)
    by (simp add: line_step_data read_lines_fragment)
  then show ?thesis
    using assms(1) by (simp add: streamChat_def ok_def flush_def trim_def)
qed

lemma empty_array_line:
  \<open>streamChat (Resolved \<lparr>status = 200, errorData = None,
      body = Some ([ascii ''data: {"choices":[{"delta":{"content":[]}}]}'' @ [10]], Closed)\<rparr>)
    = ([OnDelta (JArr []), OnDone], None)\<close>
  by (rule streamChat_one_line[where j = \<open>lit ''{"choices":[{"delta":{"content":[]}}]}''\<close>])
     (simp_all add: decode_eval parse_eval try_block_def)

lemma empty_array_send:
  \<open>messages (sendMessage nts (lit ''Hi'') 1 None
      (Resolved \<lparr>status = 200, errorData = None,
         body = Some ([ascii ''data: {"choices":[{"delta":{"content":[]}}]}'' @ [10]], Closed)\<rparr>)
      2 initial_session)
    = [INITIAL_MESSAGE, \<lparr>msg_id = toString 1, role = User, content = lit ''Hi''\<rparr>,
       \<lparr>msg_id = toString 2, role = Assistant, content = []\<rparr>]\<close>
proof -
  have t: "trim (lit ''Hi'') = lit ''Hi''"
    by (simp add: trim_def lit_def is_space_def)
  have n: "lit ''Hi'' \<noteq> []"
    by (simp add: lit_def)
  have w: "lit ''welcome'' \<noteq> lit ''streaming''"
    by (simp add: lit_welcome lit_streaming)
  show ?thesis
    by (simp add: sendMessage_def empty_array_line session_eval t n w initial_fields
          toString_not_streaming enumerate_eq_zip)
qed

text \<open>
  Claim C6, as the code has it.  \<open>updateAssistant\<close> called with the empty string adds
  nothing to the accumulated reply and writes that reply into the transcript: when the last
  message is the streaming placeholder, its content becomes the accumulated reply, so the
  transcript is unchanged exactly when the placeholder holds the reply so far; when no
  streaming placeholder is last, a placeholder with the accumulated reply is appended and
  the transcript grows by one.  \<open>streamChat\<close> never passes the empty string to \<open>onDelta\<close>:
  it passes truthy contents only, and only those that have a string conversion.  A truthy
  content that is not a string can still arrive as an empty chunk: the content \<open>[]\<close> is
  passed on, \<open>assistantContent += chunk\<close> adds the empty string, and the send ends with an
  empty assistant message in the transcript.
\<close>

theorem empty_delta_as_coded:
  fixes nts :: "rat \<Rightarrow> str"
  shows
  \<open>(prev \<noteq> [] \<and> role (last prev) = Assistant \<and> msg_id (last prev) = lit ''streaming'' \<longrightarrow>
      messages (snd (updateAssistant cl [] (s\<lparr>messages := prev\<rparr>))) =
        butlast prev @ [(last prev)\<lparr>content := assistantContent cl\<rparr>])
   \<and> (prev \<noteq> [] \<and> role (last prev) = Assistant \<and> msg_id (last prev) = lit ''streaming''
        \<and> content (last prev) = assistantContent cl \<longrightarrow>
      messages (snd (updateAssistant cl [] (s\<lparr>messages := prev\<rparr>))) = prev)
   \<and> (prev = [] \<or> role (last prev) \<noteq> Assistant \<or> msg_id (last prev) \<noteq> lit ''streaming'' \<longrightarrow>
      messages (snd (updateAssistant cl [] (s\<lparr>messages := prev\<rparr>))) =
        prev @ [\<lparr>msg_id = lit ''streaming'', role = Assistant, content = assistantContent cl\<rparr>])
   \<and> assistantContent (fst (updateAssistant cl [] s)) = assistantContent cl
   \<and> OnDelta (JStr []) \<notin> set (fst (streamChat r))
   \<and> (\<forall>c. OnDelta c \<in> set (fst (streamChat r)) \<longrightarrow> truthy (Some c) \<and> \<not> unprintable c)
   \<and> streamChat (Resolved \<lparr>status = 200, errorData = None,
        body = Some ([ascii ''data: {"choices":[{"delta":{"content":[]}}]}'' @ [10]], Closed)\<rparr>)
      = ([OnDelta (JArr []), OnDone], None)
   \<and> stream_event nts later (OnDelta (JArr [])) = Delta []
   \<and> messages (sendMessage nts (lit ''Hi'') 1 None
        (Resolved \<lparr>status = 200, errorData = None,
           body = Some ([ascii ''data: {"choices":[{"delta":{"content":[]}}]}'' @ [10]], Closed)\<rparr>)
        2 initial_session)
      = [INITIAL_MESSAGE, \<lparr>msg_id = toString 1, role = User, content = lit ''Hi''\<rparr>,
         \<lparr>msg_id = toString 2, role = Assistant, content = []\<rparr>]\<close>
proof -
  have g: "messages (snd (updateAssistant cl [] (s\<lparr>messages := prev\<rparr>))) =
        butlast prev @ [(last prev)\<lparr>content := assistantContent cl\<rparr>]"
    if "prev \<noteq> []" "role (last prev) = Assistant" "msg_id (last prev) = lit ''streaming''"
    using apply_delta_last[OF that, of "assistantContent cl"]
    by (simp add: updateAssistant_def Let_def)
  have b: "messages (snd (updateAssistant cl [] (s\<lparr>messages := prev\<rparr>))) = prev"
    if "prev \<noteq> []" "role (last prev) = Assistant" "msg_id (last prev) = lit ''streaming''"
       "content (last prev) = assistantContent cl"
  proof -
    have same: "(last prev)\<lparr>content := assistantContent cl\<rparr> = last prev"
      using that(4) by simp
    have "apply_delta (assistantContent cl) prev = butlast prev @ [last prev]"
      using apply_delta_last[OF that(1,2,3), of "assistantContent cl"] by (simp only: same)
    also have "\<dots> = prev"
      using that(1) by simp
    finally show ?thesis
      by (simp add: updateAssistant_def Let_def)
  qed
  have c: "messages (snd (updateAssistant cl [] (s\<lparr>messages := prev\<rparr>))) =
        prev @ [\<lparr>msg_id = lit ''streaming'', role = Assistant, content = assistantContent cl\<rparr>]"
    if "prev = [] \<or> role (last prev) \<noteq> Assistant \<or> msg_id (last prev) \<noteq> lit ''streaming''"
    using that by (simp add: updateAssistant_def Let_def apply_delta_new)
  have d: "assistantContent (fst (updateAssistant cl [] s)) = assistantContent cl"
    by (simp add: updateAssistant_def Let_def)
  have e: "OnDelta (JStr []) \<notin> set (fst (streamChat r))"
    using streamChat_truthy[of "JStr []" r] by auto
  have f: "\<forall>c. OnDelta c \<in> set (fst (streamChat r)) \<longrightarrow> truthy (Some c) \<and> \<not> unprintable c"
    using streamChat_truthy[of _ r] by blast
  have h: "stream_event nts later (OnDelta (JArr [])) = Delta []"
    by simp
  show ?thesis
    using g b c by (intro conjI impI d e f h empty_array_line empty_array_send) blast+
qed

theorem empty_delta_as_coded_witness:
  "messages (snd (updateAssistant \<lparr>convId = None, assistantContent = lit ''ab'', sender = None\<rparr> []
      (initial_session\<lparr>messages :=
         [INITIAL_MESSAGE, \<lparr>msg_id = lit ''streaming'', role = Assistant, content = lit ''ab''\<rparr>]\<rparr>)))
     = [INITIAL_MESSAGE, \<lparr>msg_id = lit ''streaming'', role = Assistant, content = lit ''ab''\<rparr>]
   \<and> messages (snd (updateAssistant \<lparr>convId = None, assistantContent = lit ''ab'', sender = None\<rparr> []
      (initial_session\<lparr>messages := [INITIAL_MESSAGE]\<rparr>)))
     = [INITIAL_MESSAGE] @ [\<lparr>msg_id = lit ''streaming'', role = Assistant, content = lit ''ab''\<rparr>]
   \<and> truthy (Some (JArr [])) \<and> \<not> unprintable (JArr [])"
proof -
  let ?cl = "\<lparr>convId = None, assistantContent = lit ''ab'', sender = None\<rparr>"
  let ?p = "\<lparr>msg_id = lit ''streaming'', role = Assistant, content = lit ''ab''\<rparr>"
  let ?r = \<open>Resolved \<lparr>status = 200, errorData = None,
        body = Some ([ascii ''data: {"choices":[{"delta":{"content":[]}}]}'' @ [10]], Closed)\<rparr>\<close>
  have h1: "[INITIAL_MESSAGE, ?p] \<noteq> [] \<and> role (last [INITIAL_MESSAGE, ?p]) = Assistant
      \<and> msg_id (last [INITIAL_MESSAGE, ?p]) = lit ''streaming''
      \<and> content (last [INITIAL_MESSAGE, ?p]) = assistantContent ?cl"
    by simp
  have h2: "[INITIAL_MESSAGE] = [] \<or> role (last [INITIAL_MESSAGE]) \<noteq> Assistant
      \<or> msg_id (last [INITIAL_MESSAGE]) \<noteq> lit ''streaming''"
    using welcome_not_streaming by simp
  note one = empty_delta_as_coded[where prev = "[INITIAL_MESSAGE, ?p]" and cl = ?cl
      and s = initial_session and r = ?r and nts = "\<lambda>q. []" and later = 2]
  note two = empty_delta_as_coded[where prev = "[INITIAL_MESSAGE]" and cl = ?cl
      and s = initial_session and r = ?r and nts = "\<lambda>q. []" and later = 2]
  have a: "messages (snd (updateAssistant ?cl [] (initial_session\<lparr>messages := [INITIAL_MESSAGE, ?p]\<rparr>)))
     = [INITIAL_MESSAGE, ?p]"
    by (rule one[THEN conjunct2, THEN conjunct1, THEN mp, OF h1])
  have b: "messages (snd (updateAssistant ?cl [] (initial_session\<lparr>messages := [INITIAL_MESSAGE]\<rparr>)))
     = [INITIAL_MESSAGE] @ [\<lparr>msg_id = lit ''streaming'', role = Assistant, content = assistantContent ?cl\<rparr>]"
    by (rule two[THEN conjunct2, THEN conjunct2, THEN conjunct1, THEN mp, OF h2])
  have sent: "OnDelta (JArr []) \<in> set (fst (streamChat ?r))"
    using one[THEN conjunct2, THEN conjunct2, THEN conjunct2, THEN conjunct2, THEN conjunct2,
              THEN conjunct2, THEN conjunct1]
    by simp
  have all: "\<forall>c. OnDelta c \<in> set (fst (streamChat ?r)) \<longrightarrow> truthy (Some c) \<and> \<not> unprintable c"
    by (rule one[THEN conjunct2, THEN conjunct2, THEN conjunct2, THEN conjunct2, THEN conjunct2,
              THEN conjunct1])
  have c: "truthy (Some (JArr [])) \<and> \<not> unprintable (JArr [])"
    using all sent by blast
  show ?thesis
    using a b c by simp
qed

text \<open>
  Claim C6 fails on the code: \<open>updateAssistant\<close> called with the empty string on a transcript
  without a streaming message appends an empty placeholder, so the transcript grows.
\<close>

theorem empty_delta_appends_placeholder:
  "messages (snd (updateAssistant \<lparr>convId = None, assistantContent = [], sender = None\<rparr> []
      initial_session))
     = [INITIAL_MESSAGE, \<lparr>msg_id = lit ''streaming'', role = Assistant, content = []\<rparr>]
   \<and> length (messages (snd (updateAssistant \<lparr>convId = None, assistantContent = [], sender = None\<rparr> []
      initial_session)))
     \<noteq> length (messages initial_session)"
  by (simp add: updateAssistant_def apply_delta_def initial_session_def initial_fields
        lit_welcome lit_streaming)

text \<open>
  Claim C8 fails on the code.  When the reader fails in the middle of a stream, the
  \<open>catch\<close> block clears \<open>isLoading\<close> but leaves the placeholder with the id \<open>streaming\<close> in
  the transcript.  The next send puts the user message behind it, so its first delta
  appends a second placeholder: two messages with the id \<open>streaming\<close> at once.
\<close>

theorem two_streaming_messages:
  \<open>map msg_id (messages
     (sendMessage (\<lambda>q. []) (lit ''two'') 3 None
        (Resolved \<lparr>status = 200, errorData = None,
           body = Some ([ascii ''data: {"choices":[{"delta":{"content":"B"}}]}'' @ [10]],
                        Failed (lit ''network error''))\<rparr>) 4
     (sendMessage (\<lambda>q. []) (lit ''one'') 1 None
        (Resolved \<lparr>status = 200, errorData = None,
           body = Some ([ascii ''data: {"choices":[{"delta":{"content":"A"}}]}'' @ [10]],
                        Failed (lit ''network error''))\<rparr>) 2
        initial_session)))
   = [lit ''welcome'', toString 1, lit ''streaming'', toString 3, lit ''streaming'']\<close>
proof -
  have stream: "streamChat (Resolved \<lparr>status = 200, errorData = None,
           body = Some ([c], Failed e)\<rparr>) = ([OnDelta (JStr x)], Some (Error e))"
    if "decode new_TextDecoder c = (lit ''data: '' @ j @ [10], d)"
       "10 \<notin> set j \<and>
          (\<exists>v. JSON_parse (trim j) = Some v \<and> delta_content v = Inr (Some (JStr x)))"
       "x \<noteq> []"
    for c e x j d
  proof -
    have "\<forall>(j, c) \<in> set [(j, x)]. 10 \<notin> set j \<and>
             (\<exists>v. JSON_parse (trim j) = Some v \<and> delta_content v = Inr (Some (JStr c)))"
      using that(2) by simp
    from read_lines_delta_lines[OF this, of "[]"]
    have "read_lines (lit ''data: '' @ j @ [10]) = ([], [JStr x], False)"
      using that(3) by (simp add: read_lines_fragment)
    then show ?thesis
      using that(1) by (simp add: streamChat_def ok_def)
  qed
  have A: \<open>streamChat (Resolved \<lparr>status = 200, errorData = None,
           body = Some ([ascii ''data: {"choices":[{"delta":{"content":"A"}}]}'' @ [10]],
                        Failed (lit ''network error''))\<rparr>)
        = ([OnDelta (JStr [65])], Some (Error (lit ''network error'')))\<close>
    by (rule stream[where j = \<open>lit ''{"choices":[{"delta":{"content":"A"}}]}''\<close>])
       (simp_all add: decode_eval parse_eval)
  have B: \<open>streamChat (Resolved \<lparr>status = 200, errorData = None,
           body = Some ([ascii ''data: {"choices":[{"delta":{"content":"B"}}]}'' @ [10]],
                        Failed (lit ''network error''))\<rparr>)
        = ([OnDelta (JStr [66])], Some (Error (lit ''network error'')))\<close>
    by (rule stream[where j = \<open>lit ''{"choices":[{"delta":{"content":"B"}}]}''\<close>])
       (simp_all add: decode_eval parse_eval)
  have t: "trim (lit ''one'') = lit ''one''" "trim (lit ''two'') = lit ''two''"
    by (simp_all add: trim_def lit_def is_space_def)
  have n: "lit ''one'' \<noteq> []" "lit ''two'' \<noteq> []"
    by (simp_all add: lit_def)
  show ?thesis
    by (simp add: sendMessage_def A B session_eval t n initial_fields toString_not_streaming
          enumerate_eq_zip)
qed

end
